theory Spec2Isabelle
  imports Main "HOL-Library.Sublist"
begin

section \<open>Strings\<close>

text \<open>
  The program is Python 3: a \<^verbatim>\<open>str\<close> is a sequence of code points. A string of the
  model is a \<^typ>\<open>string\<close> whose characters stand for the code points 0 to 255, so the
  character classes below are those of Python on that range (\<^verbatim>\<open>str.isspace\<close>, and the
  classes \<^verbatim>\<open>\s\<close>, \<^verbatim>\<open>\d\<close>, \<^verbatim>\<open>\w\<close> of \<^verbatim>\<open>re\<close> on \<^verbatim>\<open>str\<close> patterns). Text with
  code points above 255 is outside the model.
\<close>

abbreviation LF :: char where "LF \<equiv> CHR 0x0A"
abbreviation CR :: char where "CR \<equiv> CHR 0x0D"

definition isspace :: "char \<Rightarrow> bool" where
  "isspace c =
     (let n = (of_char c :: nat)
      in (9 \<le> n \<and> n \<le> 13) \<or> (28 \<le> n \<and> n \<le> 32) \<or> n = 133 \<or> n = 160)"

definition isdigit :: "char \<Rightarrow> bool" where
  "isdigit c = (let n = (of_char c :: nat) in 48 \<le> n \<and> n \<le> 57)"

definition isword :: "char \<Rightarrow> bool" where
  "isword c =
     (let n = (of_char c :: nat)
      in (48 \<le> n \<and> n \<le> 57) \<or> (65 \<le> n \<and> n \<le> 90) \<or> n = 95 \<or> (97 \<le> n \<and> n \<le> 122)
         \<or> n = 170 \<or> n = 178 \<or> n = 179 \<or> n = 181 \<or> n = 185 \<or> n = 186
         \<or> (188 \<le> n \<and> n \<le> 190) \<or> (192 \<le> n \<and> n \<le> 214) \<or> (216 \<le> n \<and> n \<le> 246)
         \<or> 248 \<le> n)"

text \<open>
  Case mapping is that of the ASCII letters; every other character is mapped to itself.
  The program only compares a case-mapped string with the ASCII literals \<^verbatim>\<open>"Yes"\<close> and
  \<^verbatim>\<open>"None"\<close>, and no code point from 128 to 255 is mapped by Python to one of the letters of
  these words, so the outcome of each comparison is the one of Python.
\<close>

definition ascii_uppercase :: string where
  "ascii_uppercase = ''ABCDEFGHIJKLMNOPQRSTUVWXYZ''"

definition ascii_lowercase :: string where
  "ascii_lowercase = ''abcdefghijklmnopqrstuvwxyz''"

definition to_lower :: "char \<Rightarrow> char" where
  "to_lower c = (case map_of (zip ascii_uppercase ascii_lowercase) c of None \<Rightarrow> c | Some l \<Rightarrow> l)"

definition to_upper :: "char \<Rightarrow> char" where
  "to_upper c = (case map_of (zip ascii_lowercase ascii_uppercase) c of None \<Rightarrow> c | Some u \<Rightarrow> u)"

definition is_cased :: "char \<Rightarrow> bool" where
  "is_cased c = (c \<in> set (ascii_uppercase @ ascii_lowercase))"

text \<open>\<^verbatim>\<open>str.capitalize()\<close>: the first character in upper case, the others in lower case.\<close>

fun capitalize :: "string \<Rightarrow> string" where
  "capitalize [] = []"
| "capitalize (c # cs) = to_upper c # map to_lower cs"

text \<open>
  \<^verbatim>\<open>str.title()\<close>: a cased character is put in upper case when the character before it
  is not cased, in lower case otherwise.
\<close>

fun title_from :: "bool \<Rightarrow> string \<Rightarrow> string" where
  "title_from previous_is_cased [] = []"
| "title_from previous_is_cased (c # cs) =
     (if previous_is_cased then to_lower c else to_upper c) # title_from (is_cased c) cs"

definition title :: "string \<Rightarrow> string" where
  "title s = title_from False s"

text \<open>\<^verbatim>\<open>str.strip()\<close> removes the white space at both ends.\<close>

definition strip :: "string \<Rightarrow> string" where
  "strip s = rev (dropWhile isspace (rev (dropWhile isspace s)))"

text \<open>
  \<^verbatim>\<open>str.splitlines(keepends)\<close>: a line ends at \<^verbatim>\<open>\n\<close>, \<^verbatim>\<open>\r\<close>, \<^verbatim>\<open>\r\n\<close>, \<^verbatim>\<open>\v\<close>, \<^verbatim>\<open>\f\<close>,
  \<^verbatim>\<open>\x1c\<close>, \<^verbatim>\<open>\x1d\<close>, \<^verbatim>\<open>\x1e\<close> or \<^verbatim>\<open>\x85\<close>; no empty line is produced after the last
  line end.
\<close>

definition is_linebreak :: "char \<Rightarrow> bool" where
  "is_linebreak c =
     (let n = (of_char c :: nat) in (10 \<le> n \<and> n \<le> 13) \<or> (28 \<le> n \<and> n \<le> 30) \<or> n = 133)"

fun splitlines_from :: "bool \<Rightarrow> string \<Rightarrow> string \<Rightarrow> string list" where
  "splitlines_from keepends line [] = (if line = [] then [] else [line])"
| "splitlines_from keepends line [c] =
     (if is_linebreak c then [line @ (if keepends then [c] else [])] else [line @ [c]])"
| "splitlines_from keepends line (c # d # cs) =
     (if c = CR \<and> d = LF then (line @ (if keepends then [c, d] else [])) # splitlines_from keepends [] cs
      else if is_linebreak c then (line @ (if keepends then [c] else [])) # splitlines_from keepends [] (d # cs)
      else splitlines_from keepends (line @ [c]) (d # cs))"

definition splitlines :: "bool \<Rightarrow> string \<Rightarrow> string list" where
  "splitlines keepends s = splitlines_from keepends [] s"

text \<open>\<^verbatim>\<open>sep.join(xs)\<close>.\<close>

fun join :: "string \<Rightarrow> string list \<Rightarrow> string" where
  "join sep [] = []"
| "join sep [x] = x"
| "join sep (x # y # ys) = x @ sep @ join sep (y # ys)"

text \<open>\<^verbatim>\<open>str.split(sep)\<close> for a separator that is not empty.\<close>

fun split_from :: "string \<Rightarrow> string \<Rightarrow> string \<Rightarrow> string list" where
  "split_from sep word [] = [word]"
| "split_from sep word (c # cs) =
     (if prefix sep (c # cs) then word # split_from sep [] (drop (length sep - 1) cs)
      else split_from sep (word @ [c]) cs)"

definition split :: "string \<Rightarrow> string \<Rightarrow> string list" where
  "split sep s = split_from sep [] s"

text \<open>\<^verbatim>\<open>str(n)\<close> for a natural number: its decimal digits.\<close>

fun str_nat :: "nat \<Rightarrow> string" where
  "str_nat n =
     (if n < 10 then [''0123456789'' ! n] else str_nat (n div 10) @ [''0123456789'' ! (n mod 10)])"

section \<open>Regular expressions\<close>

text \<open>
  The patterns of the program are matched as Python's \<^verbatim>\<open>re\<close> matches them: by
  backtracking, alternatives tried from left to right, a greedy repetition trying the
  longer match first and a lazy one the shorter. \<open>matches r m\<close> lists every way of matching
  \<open>r\<close> at the state \<open>m\<close>, in the order in which backtracking reaches them, so the match
  Python returns is the head of the list. A state holds the character before the current
  position (\<open>None\<close> at the start of the text), the text not yet consumed and the groups
  captured so far, the last capture of a group first.
\<close>

datatype regex =
    Eps
  | Cls "char \<Rightarrow> bool"
  | Bol
  | BolM
  | Eol
  | Seq regex regex
  | Alt regex regex
  | Opt regex
  | Star regex
  | StarLazy regex
  | Group nat regex

record mstate =
  prev :: "char option"
  rest :: string
  groups :: "(nat \<times> string) list"

fun star :: "(mstate \<Rightarrow> mstate list) \<Rightarrow> nat \<Rightarrow> mstate \<Rightarrow> mstate list" where
  "star f 0 m = [m]"
| "star f (Suc n) m =
     concat (map (star f n) (filter (\<lambda>m'. length (rest m') < length (rest m)) (f m))) @ [m]"

fun star_lazy :: "(mstate \<Rightarrow> mstate list) \<Rightarrow> nat \<Rightarrow> mstate \<Rightarrow> mstate list" where
  "star_lazy f 0 m = [m]"
| "star_lazy f (Suc n) m =
     m # concat (map (star_lazy f n) (filter (\<lambda>m'. length (rest m') < length (rest m)) (f m)))"

text \<open>
  \<open>Bol\<close> is \<^verbatim>\<open>^\<close> and \<open>BolM\<close> is \<^verbatim>\<open>^\<close> under \<^verbatim>\<open>re.M\<close>; \<open>Eol\<close> is \<^verbatim>\<open>$\<close> without \<^verbatim>\<open>re.M\<close>,
  which holds at the end of the text and before a newline that ends the text. A
  repetition stops when an iteration consumes nothing.
\<close>

primrec matches :: "regex \<Rightarrow> mstate \<Rightarrow> mstate list" where
  "matches Eps m = [m]"
| "matches (Cls P) m =
     (case rest m of
        [] \<Rightarrow> []
      | c # cs \<Rightarrow> if P c then [m\<lparr>prev := Some c, rest := cs\<rparr>] else [])"
| "matches Bol m = (if prev m = None then [m] else [])"
| "matches BolM m = (if prev m = None \<or> prev m = Some LF then [m] else [])"
| "matches Eol m = (if rest m = [] \<or> rest m = [LF] then [m] else [])"
| "matches (Seq r1 r2) m = concat (map (matches r2) (matches r1 m))"
| "matches (Alt r1 r2) m = matches r1 m @ matches r2 m"
| "matches (Opt r) m = matches r m @ [m]"
| "matches (Star r) m = star (matches r) (length (rest m)) m"
| "matches (StarLazy r) m = star_lazy (matches r) (length (rest m)) m"
| "matches (Group n r) m =
     map (\<lambda>m'. m'\<lparr>groups := (n, take (length (rest m) - length (rest m')) (rest m)) # groups m'\<rparr>)
       (matches r m)"

definition lit :: "char \<Rightarrow> regex" where
  "lit c = Cls (\<lambda>x. x = c)"

text \<open>A letter of a pattern compiled with \<^verbatim>\<open>re.I\<close>.\<close>

definition lit_i :: "char \<Rightarrow> regex" where
  "lit_i c = Cls (\<lambda>x. to_lower x = to_lower c)"

fun lits :: "string \<Rightarrow> regex" where
  "lits [] = Eps"
| "lits (c # cs) = Seq (lit c) (lits cs)"

fun lits_i :: "string \<Rightarrow> regex" where
  "lits_i [] = Eps"
| "lits_i (c # cs) = Seq (lit_i c) (lits_i cs)"

definition plus :: "regex \<Rightarrow> regex" where
  "plus r = Seq r (Star r)"

definition plus_lazy :: "regex \<Rightarrow> regex" where
  "plus_lazy r = Seq r (StarLazy r)"

text \<open>\<^verbatim>\<open>.\<close> without \<^verbatim>\<open>re.S\<close> and with it.\<close>

definition dot :: regex where
  "dot = Cls (\<lambda>c. c \<noteq> LF)"

definition dot_all :: regex where
  "dot_all = Cls (\<lambda>c. True)"

fun seqs :: "regex list \<Rightarrow> regex" where
  "seqs [] = Eps"
| "seqs [r] = r"
| "seqs (r # rs) = Seq r (seqs rs)"

text \<open>
  \<^verbatim>\<open>re.match(pattern, text)\<close>: the first match at the start of the text, if any;
  \<open>group0\<close> is \<^verbatim>\<open>group(0)\<close>, the text matched, and \<open>group m n\<close> is \<^verbatim>\<open>group(n)\<close>, \<open>None\<close>
  for a group that took no part in the match.
\<close>

definition re_match :: "regex \<Rightarrow> string \<Rightarrow> mstate option" where
  "re_match r s =
     (case matches r \<lparr>prev = None, rest = s, groups = []\<rparr> of
        [] \<Rightarrow> None
      | m # ms \<Rightarrow> Some m)"

definition group0 :: "string \<Rightarrow> mstate \<Rightarrow> string" where
  "group0 s m = take (length s - length (rest m)) s"

definition group :: "mstate \<Rightarrow> nat \<Rightarrow> string option" where
  "group m n = map_of (groups m) n"

definition group_str :: "mstate \<Rightarrow> nat \<Rightarrow> string" where
  "group_str m n = (case group m n of None \<Rightarrow> [] | Some g \<Rightarrow> g)"

text \<open>
  The search of \<^verbatim>\<open>re.split\<close> for the next match: the pattern is tried at the current
  position, then one character further, and so on. It returns the text skipped and the
  match. After an empty match the next one has to advance at the position where the
  search starts (\<open>must_advance\<close>).
\<close>

fun re_search :: "regex \<Rightarrow> bool \<Rightarrow> char option \<Rightarrow> string \<Rightarrow> (string \<times> mstate) option" where
  "re_search r must_advance p [] =
     (case filter (\<lambda>m. \<not> must_advance) (matches r \<lparr>prev = p, rest = [], groups = []\<rparr>) of
        [] \<Rightarrow> None
      | m # ms \<Rightarrow> Some ([], m))"
| "re_search r must_advance p (c # cs) =
     (case filter (\<lambda>m. \<not> must_advance \<or> length (rest m) < length (c # cs))
             (matches r \<lparr>prev = p, rest = c # cs, groups = []\<rparr>) of
        [] \<Rightarrow>
          (case re_search r False (Some c) cs of
             None \<Rightarrow> None
           | Some (skipped, m) \<Rightarrow> Some (c # skipped, m))
      | m # ms \<Rightarrow> Some ([], m))"

lemma star_suffix:
  assumes "\<And>m m'. m' \<in> set (f m) \<Longrightarrow> suffix (rest m') (rest m)"
  shows "m' \<in> set (star f n m) \<Longrightarrow> suffix (rest m') (rest m)"
proof (induction n arbitrary: m)
  case 0
  then show ?case by simp
next
  case (Suc n)
  from Suc.prems consider "m' = m"
    | m1 where "m1 \<in> set (f m)" "m' \<in> set (star f n m1)"
    by auto
  then show ?case
  proof cases
    case 1
    then show ?thesis by simp
  next
    case 2
    then show ?thesis using Suc.IH assms suffix_order.trans by blast
  qed
qed

lemma star_lazy_suffix:
  assumes "\<And>m m'. m' \<in> set (f m) \<Longrightarrow> suffix (rest m') (rest m)"
  shows "m' \<in> set (star_lazy f n m) \<Longrightarrow> suffix (rest m') (rest m)"
proof (induction n arbitrary: m)
  case 0
  then show ?case by simp
next
  case (Suc n)
  from Suc.prems consider "m' = m"
    | m1 where "m1 \<in> set (f m)" "m' \<in> set (star_lazy f n m1)"
    by auto
  then show ?case
  proof cases
    case 1
    then show ?thesis by simp
  next
    case 2
    then show ?thesis using Suc.IH assms suffix_order.trans by blast
  qed
qed

lemma matches_suffix: "m' \<in> set (matches r m) \<Longrightarrow> suffix (rest m') (rest m)"
proof (induction r arbitrary: m m')
  case (Cls P)
  then show ?case by (cases "rest m") (auto split: if_splits simp: suffix_def)
next
  case (Seq r1 r2)
  then show ?case using suffix_order.trans by fastforce
next
  case (Star r)
  then show ?case using star_suffix [of "matches r"] by simp
next
  case (StarLazy r)
  then show ?case using star_lazy_suffix [of "matches r"] by simp
qed (auto split: if_splits)

lemma re_search_length:
  "re_search r a p s = Some (skipped, m) \<Longrightarrow>
     length skipped + length (rest m) \<le> length s \<and>
     (a \<and> skipped = [] \<longrightarrow> length (rest m) < length s)"
proof (induction s arbitrary: a p skipped m)
  case Nil
  then obtain ms where "filter (\<lambda>m. \<not> a) (matches r \<lparr>prev = p, rest = [], groups = []\<rparr>) = m # ms"
    and sk: "skipped = []"
    by (auto split: list.splits)
  then have "m \<in> set (filter (\<lambda>m. \<not> a) (matches r \<lparr>prev = p, rest = [], groups = []\<rparr>))"
    by simp
  then have "m \<in> set (matches r \<lparr>prev = p, rest = [], groups = []\<rparr>)" and "\<not> a" by auto
  from matches_suffix [OF this(1)] sk \<open>\<not> a\<close> show ?case by simp
next
  case (Cons c cs)
  show ?case
  proof (cases "filter (\<lambda>m. \<not> a \<or> length (rest m) < length (c # cs))
                  (matches r \<lparr>prev = p, rest = c # cs, groups = []\<rparr>)")
    case Nil
    with Cons.prems obtain sk where sk: "re_search r False (Some c) cs = Some (sk, m)" "skipped = c # sk"
      by (auto split: option.splits)
    from Cons.IH [OF sk(1)] sk(2) show ?thesis by simp
  next
    case (Cons m1 ms)
    with Cons.prems have eq: "skipped = []" "m = m1" by auto
    from Cons have "m1 \<in> set (filter (\<lambda>m. \<not> a \<or> length (rest m) < length (c # cs))
                  (matches r \<lparr>prev = p, rest = c # cs, groups = []\<rparr>))" by simp
    then have "m1 \<in> set (matches r \<lparr>prev = p, rest = c # cs, groups = []\<rparr>)"
      and adv: "\<not> a \<or> length (rest m1) < length (c # cs)" by auto
    from matches_suffix [OF this(1)] have "length (rest m1) \<le> length (c # cs)"
      using suffix_length_le by fastforce
    with eq adv show ?thesis by auto
  qed
qed

text \<open>
  \<^verbatim>\<open>re.split(pattern, text)\<close> for a pattern with one group, which takes part in every
  match: the text before each match, then the text of the group, and at last the text
  after the last match.
\<close>

function re_split_from :: "regex \<Rightarrow> bool \<Rightarrow> char option \<Rightarrow> string \<Rightarrow> string list" where
  "re_split_from r must_advance p s =
     (case re_search r must_advance p s of
        None \<Rightarrow> [s]
      | Some (skipped, m) \<Rightarrow>
          skipped # group_str m 1 #
            re_split_from r (length skipped + length (rest m) = length s) (prev m) (rest m))"
  by pat_completeness auto
termination
proof (relation "measure (\<lambda>(r, a, p, s). 2 * length s + (if a then 0 else 1))")
  show "wf (measure (\<lambda>(r, a, p, s). 2 * length s + (if a then 0 else 1)))" by simp
next
  fix r :: regex and must_advance :: bool and p :: "char option" and s :: string
    and x2 :: "string \<times> mstate" and skipped :: string and m :: mstate
  assume "re_search r must_advance p s = Some x2" and "(skipped, m) = x2"
  then have "re_search r must_advance p s = Some (skipped, m)" by simp
  from re_search_length [OF this]
  show "((r, length skipped + length (rest m) = length s, prev m, rest m), r, must_advance, p, s)
          \<in> measure (\<lambda>(r, a, p, s). 2 * length s + (if a then 0 else 1))"
    by (cases skipped) auto
qed

definition re_split :: "regex \<Rightarrow> string \<Rightarrow> string list" where
  "re_split r s = re_split_from r False None s"

section \<open>The patterns of the program\<close>

text \<open>\<^verbatim>\<open>\s*/\*.+?\*/\<close> with \<^verbatim>\<open>re.S\<close> (\<open>import_header\<close>).\<close>

definition header_re :: regex where
  "header_re = seqs [Star (Cls isspace), lits ''/*'', plus_lazy dot_all, lits ''*/'']"

text \<open>\<^verbatim>\<open>^(Author|Argument|Return Value|Example|Public)s?:\s?\<close> with \<^verbatim>\<open>re.M\<close> (\<open>process_header\<close>).\<close>

definition section_re :: regex where
  "section_re =
     seqs [BolM,
       Group 1 (Alt (lits ''Author'') (Alt (lits ''Argument'') (Alt (lits ''Return Value'')
         (Alt (lits ''Example'') (lits ''Public''))))),
       Opt (lit CHR ''s''), lit CHR '':'', Opt (Cls isspace)]"

text \<open>\<^verbatim>\<open>(Yes|No)\<close> with \<^verbatim>\<open>re.I\<close> (\<open>process_public\<close>).\<close>

definition public_re :: regex where
  "public_re = Group 1 (Alt (lits_i ''Yes'') (lits_i ''No''))"

text \<open>
  \<^verbatim>\<open>^(\d+):\s(.+?)<([\s\w]+?)>(\s\(default: (.+)\))?$\<close> (\<open>process_arguments\<close>; the source
  writes each angle bracket with a backslash before it, which stands for the bracket).
\<close>

definition argument_re :: regex where
  "argument_re =
     seqs [Bol, Group 1 (plus (Cls isdigit)), lit CHR '':'', Cls isspace,
       Group 2 (plus_lazy dot), lit CHR ''<'',
       Group 3 (plus_lazy (Cls (\<lambda>c. isspace c \<or> isword c))), lit CHR ''>'',
       Opt (Group 4 (seqs [Cls isspace, lits ''(default: '', Group 5 (plus dot), lit CHR '')''])),
       Eol]"

text \<open>\<^verbatim>\<open>^(\d+):\<close> (\<open>process_arguments\<close>).\<close>

definition index_re :: regex where
  "index_re = seqs [Bol, Group 1 (plus (Cls isdigit)), lit CHR '':'']"

text \<open>\<^verbatim>\<open>^(.+?)<([\s\w]+?)>\<close> (\<open>process_return_value\<close>; the brackets as above).\<close>

definition return_re :: regex where
  "return_re =
     seqs [Bol, Group 1 (plus_lazy dot), lit CHR ''<'',
       Group 2 (plus_lazy (Cls (\<lambda>c. isspace c \<or> isword c))), lit CHR ''>'']"

section \<open>The class FunctionFile\<close>

text \<open>
  The exceptions the program can raise while it reads and parses a header. What is
  printed is part of the state: \<open>stdout\<close> lists the calls of \<open>write\<close>, each with its indent
  and its message. The message of \<open>log_file\<close> contains \<^verbatim>\<open>os.path.relpath(path, directory)\<close>.
  For the empty path \<^verbatim>\<open>relpath\<close> raises ValueError (\<^verbatim>\<open>no path specified\<close>). For any other
  path its result depends on the platform and on the working directory, and it is kept
  as the pair of the path and the directory; the paths \<open>crawl_dir\<close> builds lie under the
  directory, where \<^verbatim>\<open>relpath\<close> does not raise.
\<close>

datatype py_error = IndexError | ValueError | UnboundLocalError | FileNotFoundError

datatype message = Text string | Processing string string

record argument =
  arg_index :: string
  arg_name :: string
  arg_types :: string
  arg_default :: string
  arg_notes :: "string list"

text \<open>
  The attributes \<open>header_text\<close> and \<open>sections\<close> exist from \<open>process_header\<close> on, which
  sets them before anything reads them.
\<close>

record function_file =
  directory :: string
  debug :: bool
  path :: string
  header :: string
  public :: bool
  authors :: "string list"
  description :: string
  arguments :: "argument list"
  return_value :: "string list"
  example :: string
  logged :: bool
  header_text :: string
  sections :: "string list"
  stdout :: "(nat \<times> message) list"

definition FunctionFile :: "string \<Rightarrow> function_file" where
  "FunctionFile dir =
     \<lparr>directory = dir, debug = False, path = [], header = [], public = False, authors = [],
      description = [], arguments = [], return_value = [], example = [], logged = False,
      header_text = [], sections = [], stdout = []\<rparr>"

text \<open>
  A method takes the object and returns the object as it has left it, with its result
  or the exception it has raised.
\<close>

type_synonym 'a action = "function_file \<Rightarrow> (py_error + 'a) \<times> function_file"

definition return :: "'a \<Rightarrow> 'a action" where
  "return x s = (Inr x, s)"

definition raise :: "py_error \<Rightarrow> 'a action" where
  "raise e s = (Inl e, s)"

definition and_then :: "'a action \<Rightarrow> ('a \<Rightarrow> 'b action) \<Rightarrow> 'b action" where
  "and_then f g s = (case f s of (Inl e, s') \<Rightarrow> (Inl e, s') | (Inr x, s') \<Rightarrow> g x s')"

definition write_out :: "message \<Rightarrow> nat \<Rightarrow> function_file \<Rightarrow> function_file" where
  "write_out msg indent s = s\<lparr>stdout := stdout s @ [(indent, msg)]\<rparr>"

definition log_file :: "bool \<Rightarrow> unit action" where
  "log_file error s =
     (if \<not> debug s \<or> error then
        if \<not> logged s then
          if path s = [] then raise ValueError s
          else return () ((write_out (Processing (path s) (directory s)) 1 s)\<lparr>logged := True\<rparr>)
        else return () s
      else return () s)"

text \<open>
  \<^verbatim>\<open>xs[i]\<close> for a Python list and an integer: the positions are \<open>0\<close> to \<open>len(xs) - 1\<close>,
  the integers \<open>-len(xs)\<close> to \<open>-1\<close> name them again from the first to the last, and every
  other integer raises IndexError.
\<close>

definition py_index :: "'a list \<Rightarrow> int \<Rightarrow> py_error + 'a" where
  "py_index xs i =
     (if 0 \<le> i \<and> i < int (length xs) then Inr (xs ! nat i)
      else if i < 0 \<and> - int (length xs) \<le> i then Inr (xs ! nat (int (length xs) + i))
      else Inl IndexError)"

definition priority_strs :: "string list" where
  "priority_strs = [''Info'', ''Warning'', ''Error'', ''Aborted'']"

definition feedback :: "string \<Rightarrow> int \<Rightarrow> unit action" where
  "feedback msg level s =
     (case py_index priority_strs level of
        Inl e \<Rightarrow> raise e s
      | Inr priority_str \<Rightarrow>
          and_then (log_file (level > 0))
            (\<lambda>_ s. return () (write_out (Text (priority_str @ '': '' @ msg)) 2 s)) s)"

text \<open>\<^verbatim>\<open>xs.index(x)\<close>: the first position of \<open>x\<close>, \<open>None\<close> where Python raises ValueError.\<close>

fun list_index :: "'a list \<Rightarrow> 'a \<Rightarrow> nat option" where
  "list_index [] x = None"
| "list_index (y # ys) x = (if y = x then Some 0 else map_option Suc (list_index ys x))"

text \<open>
  \<open>import_header\<close> reads the file; \<open>code\<close> is the text \<^verbatim>\<open>file.read()\<close> returns. \<^verbatim>\<open>open\<close>
  raises FileNotFoundError on the empty path, after \<open>path\<close> has been set.
\<close>

definition import_header :: "string \<Rightarrow> string \<Rightarrow> unit action" where
  "import_header file_path code s =
     (let s = s\<lparr>path := file_path\<rparr>
      in if file_path = [] then raise FileNotFoundError s
         else case re_match header_re code of
                Some header_match \<Rightarrow> return () (s\<lparr>header := group0 code header_match\<rparr>)
              | None \<Rightarrow> feedback ''Missing header'' 3 s)"

definition has_header :: "function_file \<Rightarrow> bool" where
  "has_header s = (header s \<noteq> [])"

definition get_section :: "string \<Rightarrow> string action" where
  "get_section section_name s =
     (case list_index (sections s) section_name of
        Some i \<Rightarrow>
          if i + 1 < length (sections s) then return (sections s ! (i + 1)) s
          else raise IndexError s
      | None \<Rightarrow>
          and_then (feedback (''Missing \"'' @ section_name @ ''\" header section'') 2)
            (\<lambda>_. return []) s)"

definition process_public :: "string \<Rightarrow> bool action" where
  "process_public raw s =
     (let public_text = butlast raw
      in and_then
           (if re_match public_re public_text = None
            then feedback (''Invalid public value \"'' @ public_text @ ''\"'') 2
            else return ())
           (\<lambda>_. return (capitalize public_text = ''Yes'')) s)"

definition is_public :: "function_file \<Rightarrow> bool" where
  "is_public s = public s"

definition process_author :: "string \<Rightarrow> string list action" where
  "process_author raw s =
     (case splitlines False raw of
        [] \<Rightarrow> raise IndexError s
      | authors_text # _ \<Rightarrow> return (split '', '' authors_text) s)"

definition process_description :: "string \<Rightarrow> string action" where
  "process_description raw s = return (concat (drop 1 (splitlines True raw))) s"

text \<open>The body of the loop of \<open>process_arguments\<close>, for one line.\<close>

definition process_argument :: "string \<Rightarrow> argument list \<Rightarrow> argument list action" where
  "process_argument argument args s =
     (case re_match argument_re argument of
        Some valid \<Rightarrow>
          (let idx = group_str valid 1
           in and_then
                (if idx \<noteq> str_nat (length args)
                 then feedback (''Argument index '' @ idx @ '' does not match listed order'') 1
                 else return ())
                (\<lambda>_. return (args @
                   [\<lparr>arg_index = idx, arg_name = group_str valid 2, arg_types = group_str valid 3,
                     arg_default = (case group valid 5 of None \<Rightarrow> [] | Some d \<Rightarrow> d),
                     arg_notes = []\<rparr>])) s)
      | None \<Rightarrow>
          if re_match index_re argument \<noteq> None \<or> args = []
          then and_then (feedback (''Malformed argument \"'' @ argument @ ''\"'') 2) (\<lambda>_. return args) s
          else return (butlast args @
                 [(last args)\<lparr>arg_notes := arg_notes (last args) @ [argument]\<rparr>]) s)"

fun process_argument_lines :: "string list \<Rightarrow> argument list \<Rightarrow> argument list action" where
  "process_argument_lines [] args s = return args s"
| "process_argument_lines (argument # lines) args s =
     (case process_argument argument args s of
        (Inl e, s') \<Rightarrow> (Inl e, s')
      | (Inr args', s') \<Rightarrow> process_argument_lines lines args' s')"

definition process_arguments :: "string \<Rightarrow> argument list action" where
  "process_arguments raw s =
     (case splitlines False raw of
        [] \<Rightarrow> raise IndexError s
      | first_line # _ \<Rightarrow>
          if first_line = ''None'' then return [] s
          else if count_list (splitlines False raw) [] = length (splitlines False raw)
          then and_then (feedback ''No arguments provided (use \"None\" where appropriate)'' 2)
                 (\<lambda>_. return []) s
          else and_then
                 (if last (splitlines False raw) = [] then return (butlast (splitlines False raw))
                  else and_then (feedback ''No blank line after arguments list'' 1)
                         (\<lambda>_. return (splitlines False raw)))
                 (\<lambda>lines. process_argument_lines lines []) s)"

definition process_return_value :: "string \<Rightarrow> string list action" where
  "process_return_value raw s =
     (let return_value = strip raw
      in if title return_value = ''None'' then return [''None'', ''N/A''] s
         else (case re_match return_re return_value of
                 Some valid \<Rightarrow> return [group_str valid 1, group_str valid 2] s
               | None \<Rightarrow>
                   and_then (feedback (''Malformed return value \"'' @ return_value @ ''\"'') 2)
                     (\<lambda>_. raise UnboundLocalError) s))"

definition modify :: "(function_file \<Rightarrow> function_file) \<Rightarrow> unit action" where
  "modify f s = (Inr (), f s)"

text \<open>
  The first statements of \<open>process_header\<close> after the one that sets \<open>debug\<close>: the comment
  characters are cut away and the text is split into sections.
\<close>

definition split_header :: "function_file \<Rightarrow> function_file" where
  "split_header s =
     (let s = s\<lparr>header_text := join [LF] (map (\<lambda>x. strip (drop 3 x)) (splitlines False (header s)))\<rparr>
      in s\<lparr>sections := re_split section_re (header_text s)\<rparr>)"

definition process_header :: "bool \<Rightarrow> unit action" where
  "process_header dbg s =
     (let s = s\<lparr>debug := dbg\<rparr>;
          s = split_header s
      in and_then (get_section ''Public'') (\<lambda>public_raw.
           if public_raw = [] then feedback ''Public value undefined'' 3
           else
             and_then (process_public public_raw) (\<lambda>p.
             and_then (modify (\<lambda>s. s\<lparr>public := p\<rparr>)) (\<lambda>_ s.
               if \<not> public s \<and> \<not> debug s then return () s
               else
                 and_then (get_section ''Author'') (\<lambda>author_raw.
                 and_then (get_section ''Argument'') (\<lambda>arguments_raw.
                 and_then (get_section ''Return Value'') (\<lambda>return_value_raw.
                 and_then (get_section ''Example'') (\<lambda>example_raw.
                 and_then
                   (if author_raw \<noteq> [] then
                      and_then (process_author author_raw) (\<lambda>a.
                      and_then (modify (\<lambda>s. s\<lparr>authors := a\<rparr>)) (\<lambda>_.
                      and_then (process_description author_raw) (\<lambda>d.
                      modify (\<lambda>s. s\<lparr>description := d\<rparr>))))
                    else return ()) (\<lambda>_.
                 and_then
                   (if arguments_raw \<noteq> [] then
                      and_then (process_arguments arguments_raw) (\<lambda>a.
                      modify (\<lambda>s. s\<lparr>arguments := a\<rparr>))
                    else return ()) (\<lambda>_.
                 and_then
                   (if return_value_raw \<noteq> [] then
                      and_then (process_return_value return_value_raw) (\<lambda>r.
                      modify (\<lambda>s. s\<lparr>return_value := r\<rparr>))
                    else return ()) (\<lambda>_.
                 if example_raw \<noteq> [] then modify (\<lambda>s. s\<lparr>example := strip example_raw\<rparr>)
                 else return ()))))))) s))) s)"

section \<open>Writing the documentation and crawling\<close>

text \<open>
  \<^verbatim>\<open>os.path.basename\<close> and \<^verbatim>\<open>os.path.dirname\<close> as \<^verbatim>\<open>posixpath\<close> computes them: the part
  after the last slash, and the part before it without its trailing slashes (unless it
  is made of slashes only).
\<close>

definition basename :: "string \<Rightarrow> string" where
  "basename p = rev (takeWhile (\<lambda>c. c \<noteq> CHR ''/'') (rev p))"

definition dirname :: "string \<Rightarrow> string" where
  "dirname p =
     (let head = rev (dropWhile (\<lambda>c. c \<noteq> CHR ''/'') (rev p))
      in if head \<noteq> [] \<and> list_ex (\<lambda>c. c \<noteq> CHR ''/'') head
         then rev (dropWhile (\<lambda>c. c = CHR ''/'') (rev head))
         else head)"

text \<open>
  \<open>document_function\<close> appends the documentation of a function to the file of its
  component. It returns the name of that file and the text appended; creating the
  directory and opening the file are taken to succeed. \<^verbatim>\<open>format\<close> with the two
  placeholders of the return value raises IndexError when \<open>return_value\<close> has fewer than
  two elements; what has been written before stays in the file.
\<close>

definition document_function :: "function_file \<Rightarrow> (py_error + unit) \<times> string \<times> string" where
  "document_function function =
     (let component = basename (dirname (dirname (path function)));
          output = ''../wiki/functions/'' @ component @ ''.md'';
          file_name = basename (path function);
          written =
            ''\<newline>## ace_'' @ component @ ''_fnc_'' @ take (length file_name - 8) (drop 4 file_name)
              @ ''\<newline>''
            @ ''__Description__\<newline>\<newline>'' @ description function
            @ ''__Parameters__\<newline>\<newline>Index | Description | Datatype(s) | Default Value\<newline>--- | --- | --- | ---\<newline>''
            @ concat (map (\<lambda>a. arg_index a @ '' | '' @ arg_name a @ '' | '' @ arg_types a
                             @ '' | '' @ arg_default a @ ''\<newline>'') (arguments function))
            @ ''\<newline>''
      in case return_value function of
           return_name # return_types # _ \<Rightarrow>
             (Inr (), output,
              written
              @ ''__Return Value__\<newline>\<newline>Description | Datatype(s)\<newline>--- | ---\<newline>''
              @ return_name @ '' | '' @ return_types @ ''\<newline>\<newline>''
              @ ''__Example__\<newline>\<newline>'' @ replicate 3 (CHR 0x60) @ ''\<newline>'' @ example function
              @ ''\<newline>'' @ replicate 3 (CHR 0x60) @ ''\<newline>''
              @ ''\<newline>__Authors__\<newline>\<newline>''
              @ concat (map (\<lambda>author. ''- '' @ author @ ''\<newline>'') (authors function))
              @ ''\<newline>---\<newline>'')
         | _ \<Rightarrow> (Inl IndexError, output, written))"

text \<open>
  The body of the loop of \<open>crawl_dir\<close> for one file whose name passes the test
  (\<^verbatim>\<open>fnc_*.sqf\<close>): \<open>file_path\<close> is the path of the file and \<open>code\<close> its text. The result
  is the outcome with the object, and what \<open>document_function\<close> has appended, if it was
  called. An exception ends the crawl.
\<close>

definition crawl_file ::
  "string \<Rightarrow> bool \<Rightarrow> string \<Rightarrow> string \<Rightarrow> ((py_error + unit) \<times> function_file) \<times> (string \<times> string) option" where
  "crawl_file dir dbg file_path code =
     (case import_header file_path code (FunctionFile dir) of
        (Inl e, function) \<Rightarrow> ((Inl e, function), None)
      | (Inr _, function) \<Rightarrow>
          if has_header function then
            (case process_header dbg function of
               (Inl e, function) \<Rightarrow> ((Inl e, function), None)
             | (Inr _, function) \<Rightarrow>
                 if is_public function \<and> \<not> dbg then
                   (case document_function function of
                      (Inl e, appended) \<Rightarrow> ((Inl e, function), Some appended)
                    | (Inr _, appended) \<Rightarrow> (feedback ''Publicly documented'' 0 function, Some appended))
                 else ((Inr (), function), None))
          else ((Inr (), function), None))"

section \<open>What the program reports\<close>

text \<open>
  The diagnostics of an object are the messages \<open>feedback\<close> has printed for it, in order:
  the lines written with indent 2, each a severity label, a colon and the message.
\<close>

fun feedback_lines :: "(nat \<times> message) list \<Rightarrow> string list" where
  "feedback_lines [] = []"
| "feedback_lines ((i, Text t) # ls) = (if i = 2 then t # feedback_lines ls else feedback_lines ls)"
| "feedback_lines ((i, Processing p d) # ls) = feedback_lines ls"

definition diagnostics :: "function_file \<Rightarrow> string list" where
  "diagnostics s = feedback_lines (stdout s)"

text \<open>
  The object \<open>log_file\<close> leaves when it returns: the path of the file is announced once,
  before the first diagnostic (in debug mode) or the first message (otherwise).
\<close>

definition announced :: "bool \<Rightarrow> function_file \<Rightarrow> function_file" where
  "announced error s =
     (if (\<not> debug s \<or> error) \<and> \<not> logged s
      then (write_out (Processing (path s) (directory s)) 1 s)\<lparr>logged := True\<rparr>
      else s)"

text \<open>
  The object that \<open>crawl_dir\<close> hands to \<open>process_header\<close>: a new \<open>FunctionFile\<close> in which
  \<open>import_header\<close> has set the path of the file and the header it has found.
\<close>

definition with_header :: "string \<Rightarrow> string \<Rightarrow> string \<Rightarrow> function_file" where
  "with_header dir file_path h = (FunctionFile dir)\<lparr>path := file_path, header := h\<rparr>"

text \<open>The text \<open>t\<close> starts with the word \<open>w\<close>, the case of the ASCII letters ignored.\<close>

definition starts_with_ci :: "string \<Rightarrow> string \<Rightarrow> bool" where
  "starts_with_ci w t = (map to_lower (take (length w) t) = map to_lower w)"

text \<open>
  A header with every section, whose return value lacks the types in angle brackets.
\<close>

definition malformed_return_header :: string where
  "malformed_return_header =
     ''/*\<newline> * Author: x\<newline> * Does.\<newline> *\<newline> * Arguments:\<newline> * None\<newline> *\<newline> * Return Value:\<newline> * Success\<newline> *\<newline> * Example:\<newline> * call f\<newline> *\<newline> * Public: Yes\<newline> */''"

text \<open>
  The header of the scenario of the specification: a block comment whose lines, after
  the decoration \<^verbatim>\<open> * \<close>, read as the scenario lists them.
\<close>

definition scenario_header :: string where
  "scenario_header =
     ''/*\<newline> * Author: bux578\<newline> * Does a thing.\<newline> *\<newline> * Arguments:\<newline> * 0: Unit <OBJECT>\<newline> *\<newline> * Return Value:\<newline> * Success <BOOLEAN>\<newline> *\<newline> * Example:\<newline> * [player] call ace_test_fnc_thing;\<newline> *\<newline> * Public: Yes\<newline> */''"

section \<open>Notions used in the statements\<close>

text \<open>The state of a match after the next \<open>k\<close> characters have been consumed.\<close>

definition advance :: "nat \<Rightarrow> mstate \<Rightarrow> mstate" where
  "advance k m =
     m\<lparr>prev := (if k = 0 then prev m else Some (rest m ! (k - 1))), rest := drop k (rest m)\<rparr>"

text \<open>One step of a repetition of a character class: what \<open>matches (Cls P)\<close> is.\<close>

definition cls_step :: "(char \<Rightarrow> bool) \<Rightarrow> mstate \<Rightarrow> mstate list" where
  "cls_step P m =
     (case rest m of [] \<Rightarrow> [] | c # cs \<Rightarrow> if P c then [m\<lparr>prev := Some c, rest := cs\<rparr>] else [])"

text \<open>
  \<open>h\<close> is a header span of the text: it starts the text and is made of white space, the
  opening delimiter, at least one character and the closing delimiter.
\<close>

definition header_span :: "string \<Rightarrow> string \<Rightarrow> bool" where
  "header_span code h \<longleftrightarrow>
     (\<exists>ws b. h = ws @ ''/*'' @ b @ ''*/'' \<and> (\<forall>c \<in> set ws. isspace c) \<and> b \<noteq> [] \<and> prefix h code)"

text \<open>
  The condition of the specification for a header to be present: after the leading white
  space the text begins with the opening delimiter, and a closing delimiter follows.
\<close>

definition claimed_header_present :: "string \<Rightarrow> bool" where
  "claimed_header_present code =
     (prefix ''/*'' (dropWhile isspace code) \<and>
      list_ex (prefix ''*/'') (suffixes (drop 2 (dropWhile isspace code))))"

text \<open>The names of the sections, as the pattern of \<open>process_header\<close> captures them.\<close>

definition section_names :: "string list" where
  "section_names = [''Author'', ''Argument'', ''Return Value'', ''Example'', ''Public'']"

text \<open>
  A diagnostic is labelled when exactly one of the four severity labels, followed by a
  colon and a space, starts it.
\<close>

definition labelled :: "string \<Rightarrow> bool" where
  "labelled t = (length (filter (\<lambda>label. prefix (label @ '': '') t) priority_strs) = 1)"

text \<open>
  A text is closed when it is empty or ends with a newline or a slash; no name of a
  section is closed.
\<close>

definition closed_text :: "string \<Rightarrow> bool" where
  "closed_text t \<longleftrightarrow> t = [] \<or> last t = LF \<or> last t = CHR ''/''"

text \<open>
  The invariant of the crawl of one file: the object has a path, each of its
  diagnostics is labelled, and the last element of \<open>sections\<close>, if there is one, is not the
  name of a section (so the element after the first occurrence of a name exists). A
  method keeps the invariant when it preserves it and does not raise IndexError.
\<close>

definition fit :: "function_file \<Rightarrow> bool" where
  "fit s \<longleftrightarrow>
     path s \<noteq> [] \<and> list_all labelled (diagnostics s) \<and>
     (sections s = [] \<or> last (sections s) \<notin> set section_names)"

definition keeps :: "'a action \<Rightarrow> bool" where
  "keeps f \<longleftrightarrow> (\<forall>s. fit s \<longrightarrow> fit (snd (f s)) \<and> fst (f s) \<noteq> Inl IndexError)"

section \<open>Basic facts\<close>

lemma feedback_lines_append: "feedback_lines (xs @ ys) = feedback_lines xs @ feedback_lines ys"
  by (induction xs rule: feedback_lines.induct) auto

lemma log_file_returns: "path s \<noteq> [] \<Longrightarrow> log_file e s = (Inr (), announced e s)"
  by (simp add: log_file_def announced_def return_def)

lemma diagnostics_announced: "diagnostics (announced e s) = diagnostics s"
  by (simp add: diagnostics_def announced_def write_out_def feedback_lines_append)

lemma diagnostics_write_out: "diagnostics (write_out (Text t) 2 s) = diagnostics s @ [t]"
  by (simp add: diagnostics_def write_out_def feedback_lines_append)

lemma path_announced: "path (announced e s) = path s"
  by (simp add: announced_def write_out_def)

lemma path_write_out: "path (write_out m i s) = path s"
  by (simp add: write_out_def)

lemma feedback_Info:
  "path s \<noteq> [] \<Longrightarrow>
     feedback msg 0 s = (Inr (), write_out (Text (''Info: '' @ msg)) 2 (announced False s))"
  by (simp add: feedback_def py_index_def priority_strs_def and_then_def return_def log_file_returns)

lemma feedback_Warning:
  "path s \<noteq> [] \<Longrightarrow>
     feedback msg 1 s = (Inr (), write_out (Text (''Warning: '' @ msg)) 2 (announced True s))"
  by (simp add: feedback_def py_index_def priority_strs_def and_then_def return_def log_file_returns)

lemma feedback_Error:
  "path s \<noteq> [] \<Longrightarrow>
     feedback msg 2 s = (Inr (), write_out (Text (''Error: '' @ msg)) 2 (announced True s))"
  by (simp add: feedback_def py_index_def priority_strs_def and_then_def return_def log_file_returns)

lemma feedback_Aborted:
  "path s \<noteq> [] \<Longrightarrow>
     feedback msg 3 s = (Inr (), write_out (Text (''Aborted: '' @ msg)) 2 (announced True s))"
  by (simp add: feedback_def py_index_def priority_strs_def and_then_def return_def log_file_returns)

section \<open>The return value\<close>

lemma process_return_value_unmatched:
  assumes "title (strip raw) \<noteq> ''None''" and "re_match return_re (strip raw) = None"
    and "path s \<noteq> []"
  shows "fst (process_return_value raw s) = Inl UnboundLocalError"
    and "diagnostics (snd (process_return_value raw s)) =
           diagnostics s @ [''Error: Malformed return value \"'' @ strip raw @ ''\"'']"
  using assms
  by (simp_all add: process_return_value_def and_then_def raise_def feedback_Error
      diagnostics_write_out diagnostics_announced)

lemma malformed_return_run:
  "process_header False (with_header ''.'' ''fnc_x.sqf'' malformed_return_header) =
     (Inl UnboundLocalError,
      (with_header ''.'' ''fnc_x.sqf'' malformed_return_header)
        \<lparr>public := True, authors := [''x''], description := ''Does.\<newline>\<newline>'', logged := True,
         header_text := ''\<newline>Author: x\<newline>Does.\<newline>\<newline>Arguments:\<newline>None\<newline>\<newline>Return Value:\<newline>Success\<newline>\<newline>Example:\<newline>call f\<newline>\<newline>Public: Yes\<newline>'',
         sections := [''\<newline>'', ''Author'', ''x\<newline>Does.\<newline>\<newline>'', ''Argument'', ''None\<newline>\<newline>'',
                      ''Return Value'', ''Success\<newline>\<newline>'', ''Example'', ''call f\<newline>\<newline>'',
                      ''Public'', ''Yes\<newline>''],
         stdout := [(1, Processing ''fnc_x.sqf'' ''.''),
                    (2, Text ''Error: Malformed return value \"Success\"'')]\<rparr>)"
  by code_simp

text \<open>
  C1. A return-value body whose trimmed text is not \<^verbatim>\<open>None\<close> in title case and does not
  match the pattern is reported with one Error diagnostic, as the claim says, but then
  \<open>process_return_value\<close> returns nothing: \<^verbatim>\<open>return_name\<close> and \<^verbatim>\<open>return_types\<close> are bound
  only where the pattern matches, so the \<^verbatim>\<open>return\<close> statement raises UnboundLocalError
  (\<open>process_return_value_unmatched\<close> for every such body, on an object with a path).
  Here the body is the line \<^verbatim>\<open>Success\<close>, on the object of a file \<^verbatim>\<open>fnc_x.sqf\<close>; through
  \<open>process_header\<close> the exception reaches \<open>crawl_dir\<close>, after the one diagnostic, with the
  return value and the example of the object never set.
\<close>

theorem process_return_value_malformed_raises:
  "process_return_value ''Success\<newline>\<newline>'' (with_header ''.'' ''fnc_x.sqf'' malformed_return_header) =
     (Inl UnboundLocalError,
      (with_header ''.'' ''fnc_x.sqf'' malformed_return_header)
        \<lparr>logged := True,
         stdout := [(1, Processing ''fnc_x.sqf'' ''.''),
                    (2, Text ''Error: Malformed return value \"Success\"'')]\<rparr>) \<and>
   fst (process_header False (with_header ''.'' ''fnc_x.sqf'' malformed_return_header)) =
     Inl UnboundLocalError \<and>
   diagnostics (snd (process_header False (with_header ''.'' ''fnc_x.sqf'' malformed_return_header))) =
     [''Error: Malformed return value \"Success\"''] \<and>
   return_value (snd (process_header False (with_header ''.'' ''fnc_x.sqf'' malformed_return_header))) = []"
proof -
  have "process_return_value ''Success\<newline>\<newline>'' (with_header ''.'' ''fnc_x.sqf'' malformed_return_header) =
     (Inl UnboundLocalError,
      (with_header ''.'' ''fnc_x.sqf'' malformed_return_header)
        \<lparr>logged := True,
         stdout := [(1, Processing ''fnc_x.sqf'' ''.''),
                    (2, Text ''Error: Malformed return value \"Success\"'')]\<rparr>)"
    by code_simp
  then show ?thesis
    unfolding malformed_return_run
    by (simp add: diagnostics_def with_header_def FunctionFile_def)
qed

section \<open>The Public section\<close>

lemma diagnostics_FunctionFile: "diagnostics (FunctionFile dir) = []"
  by (simp add: diagnostics_def FunctionFile_def)

lemma matches_lit_i:
  "matches (lit_i c) m =
     (case rest m of [] \<Rightarrow> [] | x # xs \<Rightarrow> if to_lower x = to_lower c then [m\<lparr>prev := Some x, rest := xs\<rparr>] else [])"
  by (simp add: lit_i_def)

lemma matches_lits_i_empty:
  "matches (lits_i w) m = [] \<longleftrightarrow> \<not> starts_with_ci w (rest m)"
proof (induction w arbitrary: m)
  case Nil
  then show ?case by (simp add: starts_with_ci_def)
next
  case (Cons c cs)
  show ?case
  proof (cases "rest m")
    case Nil
    then show ?thesis by (simp add: matches_lit_i starts_with_ci_def)
  next
    case (Cons x xs)
    then show ?thesis
      using Cons.IH [of "m\<lparr>prev := Some x, rest := xs\<rparr>"]
      by (simp add: matches_lit_i starts_with_ci_def)
  qed
qed

lemma public_re_no_match:
  "re_match public_re t = None \<longleftrightarrow> \<not> (starts_with_ci ''Yes'' t \<or> starts_with_ci ''No'' t)"
proof -
  let ?m = "\<lparr>prev = None, rest = t, groups = []\<rparr>"
  have "re_match public_re t = None \<longleftrightarrow> matches public_re ?m = []"
    by (simp add: re_match_def split: list.splits)
  also have "\<dots> \<longleftrightarrow> matches (lits_i ''Yes'') ?m = [] \<and> matches (lits_i ''No'') ?m = []"
    unfolding public_re_def by (simp del: lits_i.simps)
  also have "\<dots> \<longleftrightarrow> \<not> (starts_with_ci ''Yes'' t \<or> starts_with_ci ''No'' t)"
    unfolding matches_lits_i_empty by simp
  finally show ?thesis .
qed

lemma process_public_result:
  assumes "path s \<noteq> []"
  shows "process_public raw s =
     (Inr (capitalize (butlast raw) = ''Yes''),
      if starts_with_ci ''Yes'' (butlast raw) \<or> starts_with_ci ''No'' (butlast raw) then s
      else write_out (Text (''Error: Invalid public value \"'' @ butlast raw @ ''\"'')) 2 (announced True s))"
  using public_re_no_match [of "butlast raw"] assms
  by (simp add: process_public_def Let_def and_then_def return_def feedback_Error)

lemma to_upper_Y: "to_upper c = CHR ''Y'' \<Longrightarrow> to_lower c = CHR ''y''"
  by (simp add: to_upper_def to_lower_def ascii_uppercase_def ascii_lowercase_def split: if_splits)

lemma capitalize_Yes: "capitalize t = ''Yes'' \<Longrightarrow> starts_with_ci ''Yes'' t"
proof -
  assume a: "capitalize t = ''Yes''"
  then obtain a1 b1 c1 where t: "t = [a1, b1, c1]"
    by (cases t) (auto simp: map_eq_Cons_conv)
  with a have "to_upper a1 = CHR ''Y''" "to_lower b1 = CHR ''e''" "to_lower c1 = CHR ''s''" by auto
  with t to_upper_Y show ?thesis
    by (simp add: starts_with_ci_def to_lower_def ascii_uppercase_def ascii_lowercase_def)
qed

lemma split_header_keeps:
  "path (split_header s) = path s"
  "debug (split_header s) = debug s"
  "diagnostics (split_header s) = diagnostics s"
  "authors (split_header s) = authors s"
  "description (split_header s) = description s"
  "arguments (split_header s) = arguments s"
  "return_value (split_header s) = return_value s"
  "example (split_header s) = example s"
  by (simp_all add: split_header_def Let_def diagnostics_def)

lemma with_header_fields:
  "path (with_header dir fp h) = fp"
  "debug (with_header dir fp h) = False"
  "diagnostics (with_header dir fp h) = []"
  "authors (with_header dir fp h) = []"
  "description (with_header dir fp h) = []"
  "arguments (with_header dir fp h) = []"
  "return_value (with_header dir fp h) = []"
  "example (with_header dir fp h) = []"
  "(with_header dir fp h)\<lparr>debug := False\<rparr> = with_header dir fp h"
  by (simp_all add: with_header_def FunctionFile_def diagnostics_def)

text \<open>
  C5. On an object with a path, \<open>process_public\<close> drops the last character of the body.
  It returns whether the rest, capitalized, is \<^verbatim>\<open>Yes\<close>, and it reports one Error
  diagnostic exactly when the rest does not start with \<^verbatim>\<open>Yes\<close> or \<^verbatim>\<open>No\<close>, the case of the
  letters ignored; what follows such a start is never reported. This holds for every
  body, the empty one included.
\<close>

theorem process_public_spec:
  assumes "path s \<noteq> []"
  shows "fst (process_public raw s) = Inr (capitalize (butlast raw) = ''Yes'') \<and>
         diagnostics (snd (process_public raw s)) =
           diagnostics s @
             (if starts_with_ci ''Yes'' (butlast raw) \<or> starts_with_ci ''No'' (butlast raw) then []
              else [''Error: Invalid public value \"'' @ butlast raw @ ''\"''])"
  by (simp add: process_public_result [OF assms] diagnostics_write_out diagnostics_announced)

theorem process_public_spec_witness:
  "path (with_header ''.'' ''fnc_x.sqf'' ''/* x */'') \<noteq> [] \<and>
   fst (process_public ''yes\<newline>'' (with_header ''.'' ''fnc_x.sqf'' ''/* x */'')) = Inr True \<and>
   fst (process_public ''YES\<newline>'' (with_header ''.'' ''fnc_x.sqf'' ''/* x */'')) = Inr True \<and>
   fst (process_public ''yes please\<newline>'' (with_header ''.'' ''fnc_x.sqf'' ''/* x */'')) = Inr False \<and>
   diagnostics (snd (process_public ''yes please\<newline>'' (with_header ''.'' ''fnc_x.sqf'' ''/* x */''))) = [] \<and>
   fst (process_public ''Maybe\<newline>'' (with_header ''.'' ''fnc_x.sqf'' ''/* x */'')) = Inr False \<and>
   diagnostics (snd (process_public ''Maybe\<newline>'' (with_header ''.'' ''fnc_x.sqf'' ''/* x */''))) =
     [''Error: Invalid public value \"Maybe\"'']"
proof -
  have p: "path (with_header ''.'' ''fnc_x.sqf'' ''/* x */'') \<noteq> []"
    by (simp add: with_header_fields)
  show ?thesis
    using p process_public_spec [OF p, of "''yes\<newline>''"] process_public_spec [OF p, of "''YES\<newline>''"]
      process_public_spec [OF p, of "''yes please\<newline>''"] process_public_spec [OF p, of "''Maybe\<newline>''"]
    by (simp add: starts_with_ci_def to_lower_def to_upper_def ascii_uppercase_def
        ascii_lowercase_def with_header_fields)
qed

lemma get_section_found:
  assumes "fst (get_section n s) = Inr raw" and "raw \<noteq> []"
  shows "get_section n s = (Inr raw, s)"
proof (cases "list_index (sections s) n")
  case None
  then have "get_section n s =
      and_then (feedback (''Missing \"'' @ n @ ''\" header section'') 2) (\<lambda>_. return []) s"
    by (simp add: get_section_def)
  with assms show ?thesis
    by (auto simp: and_then_def return_def split: prod.splits sum.splits)
next
  case (Some i)
  with assms show ?thesis
    by (auto simp: get_section_def return_def raise_def split: if_splits)
qed

lemma process_header_private:
  assumes "fst (get_section ''Public'' (split_header (s\<lparr>debug := False\<rparr>))) = Inr raw"
    and "raw \<noteq> []"
    and "capitalize (butlast raw) \<noteq> ''Yes''"
    and "path s \<noteq> []"
  shows "process_header False s =
           (Inr (), (snd (process_public raw (split_header (s\<lparr>debug := False\<rparr>))))\<lparr>public := False\<rparr>)"
proof -
  let ?sp = "split_header (s\<lparr>debug := False\<rparr>)"
  have dbg: "debug ?sp = False" by (simp add: split_header_keeps)
  have p: "path ?sp \<noteq> []" using assms(4) by (simp add: split_header_keeps)
  obtain s2 where pp: "process_public raw ?sp = (Inr False, s2)"
    using assms(3) by (simp add: process_public_result [OF p])
  have d2: "debug s2 = False"
    using pp dbg by (auto simp: process_public_result [OF p] write_out_def announced_def split: if_splits)
  show ?thesis
    using get_section_found [OF assms(1,2)] assms(2) pp d2
    by (simp add: process_header_def Let_def and_then_def modify_def return_def)
qed

lemma diagnostics_public: "diagnostics (s\<lparr>public := p\<rparr>) = diagnostics s"
  by (simp add: diagnostics_def)

lemma fields_after_report:
  "authors (write_out m i s) = authors s"
  "description (write_out m i s) = description s"
  "arguments (write_out m i s) = arguments s"
  "return_value (write_out m i s) = return_value s"
  "example (write_out m i s) = example s"
  "authors (announced e s) = authors s"
  "description (announced e s) = description s"
  "arguments (announced e s) = arguments s"
  "return_value (announced e s) = return_value s"
  "example (announced e s) = example s"
  by (simp_all add: write_out_def announced_def)

text \<open>
  C8. When the Public section of the header of a file is found, is not empty and parses
  to false, \<open>process_header\<close> without debug mode returns right after \<open>process_public\<close>: the
  object it leaves is the one \<open>process_public\<close> has left, with \<open>public\<close> set to false. The
  authors, the description, the arguments, the return value and the example keep the
  defaults of a new object, and the only diagnostic possible is the one of
  \<open>process_public\<close> about the Public value. The path of the file is not empty.
\<close>

theorem private_header_keeps_defaults:
  assumes "fst (get_section ''Public'' (split_header (with_header dir fp h))) = Inr raw"
    and "raw \<noteq> []"
    and "fst (process_public raw (split_header (with_header dir fp h))) = Inr False"
    and "fp \<noteq> []"
  shows "process_header False (with_header dir fp h) =
           (Inr (), (snd (process_public raw (split_header (with_header dir fp h))))\<lparr>public := False\<rparr>) \<and>
         authors (snd (process_header False (with_header dir fp h))) = [] \<and>
         description (snd (process_header False (with_header dir fp h))) = [] \<and>
         arguments (snd (process_header False (with_header dir fp h))) = [] \<and>
         return_value (snd (process_header False (with_header dir fp h))) = [] \<and>
         example (snd (process_header False (with_header dir fp h))) = [] \<and>
         diagnostics (snd (process_header False (with_header dir fp h))) =
           (if starts_with_ci ''Yes'' (butlast raw) \<or> starts_with_ci ''No'' (butlast raw) then []
            else [''Error: Invalid public value \"'' @ butlast raw @ ''\"''])"
proof -
  let ?s0 = "with_header dir fp h"
  have p0: "path ?s0 \<noteq> []" using assms(4) by (simp add: with_header_fields)
  have p: "path (split_header ?s0) \<noteq> []" using assms(4) by (simp add: split_header_keeps with_header_fields)
  have g: "fst (get_section ''Public'' (split_header (?s0\<lparr>debug := False\<rparr>))) = Inr raw"
    using assms(1) by (simp only: with_header_fields)
  have c: "capitalize (butlast raw) \<noteq> ''Yes''"
    using assms(3) by (simp add: process_public_result [OF p])
  have run: "process_header False ?s0 =
      (Inr (), (snd (process_public raw (split_header ?s0)))\<lparr>public := False\<rparr>)"
    using process_header_private [OF g assms(2) c p0] by (simp only: with_header_fields)
  have diag: "diagnostics ((snd (process_public raw (split_header ?s0)))\<lparr>public := False\<rparr>) =
      (if starts_with_ci ''Yes'' (butlast raw) \<or> starts_with_ci ''No'' (butlast raw) then []
       else [''Error: Invalid public value \"'' @ butlast raw @ ''\"''])"
    by (simp add: process_public_result [OF p] diagnostics_public diagnostics_write_out
        diagnostics_announced split_header_keeps with_header_fields)
  show ?thesis
    unfolding run using diag
    by (simp add: process_public_result [OF p] fields_after_report split_header_keeps with_header_fields)
qed

theorem private_header_keeps_defaults_witness:
  "fst (get_section ''Public''
         (split_header (with_header ''.'' ''fnc_x.sqf''
            ''/*\<newline> * Author: x\<newline> * Public: No\<newline> */''))) = Inr ''No\<newline>'' \<and>
   fst (process_public ''No\<newline>''
         (split_header (with_header ''.'' ''fnc_x.sqf''
            ''/*\<newline> * Author: x\<newline> * Public: No\<newline> */''))) = Inr False \<and>
   fst (process_header False (with_header ''.'' ''fnc_x.sqf''
          ''/*\<newline> * Author: x\<newline> * Public: No\<newline> */'')) = Inr () \<and>
   authors (snd (process_header False (with_header ''.'' ''fnc_x.sqf''
          ''/*\<newline> * Author: x\<newline> * Public: No\<newline> */''))) = [] \<and>
   diagnostics (snd (process_header False (with_header ''.'' ''fnc_x.sqf''
          ''/*\<newline> * Author: x\<newline> * Public: No\<newline> */''))) = []"
proof -
  let ?s0 = "with_header ''.'' ''fnc_x.sqf'' ''/*\<newline> * Author: x\<newline> * Public: No\<newline> */''"
  have g: "fst (get_section ''Public'' (split_header ?s0)) = Inr ''No\<newline>''"
    by code_simp
  have p: "fst (process_public ''No\<newline>'' (split_header ?s0)) = Inr False"
    by code_simp
  have n: "starts_with_ci ''No'' (butlast ''No\<newline>'')"
    by code_simp
  have ne: "''No\<newline>'' \<noteq> []" by simp
  have fp: "''fnc_x.sqf'' \<noteq> []" by simp
  note w = private_header_keeps_defaults [OF g ne p fp]
  have a: "fst (process_header False ?s0) = Inr ()" using w by simp
  have b: "authors (snd (process_header False ?s0)) = []" using w by blast
  have "diagnostics (snd (process_header False ?s0)) =
           (if starts_with_ci ''Yes'' (butlast ''No\<newline>'') \<or> starts_with_ci ''No'' (butlast ''No\<newline>'')
            then [] else [''Error: Invalid public value \"'' @ butlast ''No\<newline>'' @ ''\"''])"
    using w by blast
  with n have c: "diagnostics (snd (process_header False ?s0)) = []" by simp
  from g p a b c show ?thesis by blast
qed

text \<open>
  C9. A Public body that, without its last character, does not start with \<^verbatim>\<open>Yes\<close> or
  \<^verbatim>\<open>No\<close> (the case of the letters ignored) makes \<open>process_public\<close> return false. Without
  debug mode \<open>process_header\<close> then stops as for a private function: the remaining
  fields keep their defaults, and the Error diagnostic about the invalid value is the
  only diagnostic. The path of the file is not empty.
\<close>

theorem invalid_public_value_is_private:
  assumes "fst (get_section ''Public'' (split_header (with_header dir fp h))) = Inr raw"
    and "raw \<noteq> []"
    and "\<not> starts_with_ci ''Yes'' (butlast raw)"
    and "\<not> starts_with_ci ''No'' (butlast raw)"
    and "fp \<noteq> []"
  shows "fst (process_public raw (split_header (with_header dir fp h))) = Inr False \<and>
         process_header False (with_header dir fp h) =
           (Inr (), (snd (process_public raw (split_header (with_header dir fp h))))\<lparr>public := False\<rparr>) \<and>
         authors (snd (process_header False (with_header dir fp h))) = [] \<and>
         description (snd (process_header False (with_header dir fp h))) = [] \<and>
         arguments (snd (process_header False (with_header dir fp h))) = [] \<and>
         return_value (snd (process_header False (with_header dir fp h))) = [] \<and>
         example (snd (process_header False (with_header dir fp h))) = [] \<and>
         diagnostics (snd (process_header False (with_header dir fp h))) =
           [''Error: Invalid public value \"'' @ butlast raw @ ''\"'']"
proof -
  let ?s0 = "with_header dir fp h"
  have p0: "path ?s0 \<noteq> []" using assms(5) by (simp add: with_header_fields)
  have p: "path (split_header ?s0) \<noteq> []" using assms(5) by (simp add: split_header_keeps with_header_fields)
  have c: "capitalize (butlast raw) \<noteq> ''Yes''"
    using assms(3) capitalize_Yes by blast
  have g: "fst (get_section ''Public'' (split_header (?s0\<lparr>debug := False\<rparr>))) = Inr raw"
    using assms(1) by (simp only: with_header_fields)
  have run: "process_header False ?s0 =
      (Inr (), (snd (process_public raw (split_header ?s0)))\<lparr>public := False\<rparr>)"
    using process_header_private [OF g assms(2) c p0] by (simp only: with_header_fields)
  have diag: "diagnostics ((snd (process_public raw (split_header ?s0)))\<lparr>public := False\<rparr>) =
       [''Error: Invalid public value \"'' @ butlast raw @ ''\"'']"
    using assms(3,4)
    by (simp add: process_public_result [OF p] diagnostics_public diagnostics_write_out
        diagnostics_announced split_header_keeps with_header_fields)
  show ?thesis
    unfolding run using diag c assms(3,4)
    by (simp add: process_public_result [OF p] fields_after_report split_header_keeps with_header_fields)
qed

theorem invalid_public_value_is_private_witness:
  "fst (get_section ''Public''
         (split_header (with_header ''.'' ''fnc_x.sqf''
            ''/*\<newline> * Author: x\<newline> * Public: Maybe\<newline> */''))) = Inr ''Maybe\<newline>'' \<and>
   fst (process_header False (with_header ''.'' ''fnc_x.sqf''
          ''/*\<newline> * Author: x\<newline> * Public: Maybe\<newline> */'')) = Inr () \<and>
   public (snd (process_header False (with_header ''.'' ''fnc_x.sqf''
          ''/*\<newline> * Author: x\<newline> * Public: Maybe\<newline> */''))) = False \<and>
   authors (snd (process_header False (with_header ''.'' ''fnc_x.sqf''
          ''/*\<newline> * Author: x\<newline> * Public: Maybe\<newline> */''))) = [] \<and>
   diagnostics (snd (process_header False (with_header ''.'' ''fnc_x.sqf''
          ''/*\<newline> * Author: x\<newline> * Public: Maybe\<newline> */''))) =
     [''Error: Invalid public value \"Maybe\"'']"
proof -
  let ?s0 = "with_header ''.'' ''fnc_x.sqf'' ''/*\<newline> * Author: x\<newline> * Public: Maybe\<newline> */''"
  have g: "fst (get_section ''Public'' (split_header ?s0)) = Inr ''Maybe\<newline>''"
    by code_simp
  have y: "\<not> starts_with_ci ''Yes'' (butlast ''Maybe\<newline>'')"
    by code_simp
  have n: "\<not> starts_with_ci ''No'' (butlast ''Maybe\<newline>'')"
    by code_simp
  have ne: "''Maybe\<newline>'' \<noteq> []" by simp
  have fp: "''fnc_x.sqf'' \<noteq> []" by simp
  note w = invalid_public_value_is_private [OF g ne y n fp]
  have a: "fst (process_header False ?s0) = Inr ()" using w by simp
  have b: "public (snd (process_header False ?s0)) = False" using w by simp
  have c: "authors (snd (process_header False ?s0)) = []" using w by blast
  have "diagnostics (snd (process_header False ?s0)) =
      [''Error: Invalid public value \"'' @ butlast ''Maybe\<newline>'' @ ''\"'']"
    using w by blast
  then have d: "diagnostics (snd (process_header False ?s0)) =
      [''Error: Invalid public value \"Maybe\"'']" by simp
  from g a b c d show ?thesis by blast
qed

section \<open>The arguments\<close>

lemma splitlines_from_nonempty:
  "s \<noteq> [] \<or> line \<noteq> [] \<Longrightarrow> splitlines_from k line s \<noteq> []"
  by (induction k line s rule: splitlines_from.induct) auto

lemma splitlines_nonempty: "raw \<noteq> [] \<Longrightarrow> splitlines k raw \<noteq> []"
  by (simp add: splitlines_def splitlines_from_nonempty)

lemma count_list_all: "(\<forall>l \<in> set ls. l = x) \<Longrightarrow> count_list ls x = length ls"
  by (induction ls) auto


lemma process_arguments_None:
  assumes "raw \<noteq> []" and "hd (splitlines False raw) = ''None''"
  shows "process_arguments raw s = (Inr [], s)"
proof -
  obtain l ls where "splitlines False raw = l # ls"
    using splitlines_nonempty [OF assms(1)] by (cases "splitlines False raw") auto
  with assms(2) show ?thesis
    by (simp add: process_arguments_def return_def)
qed

lemma process_arguments_blank:
  assumes "raw \<noteq> []" and "\<forall>l \<in> set (splitlines False raw). l = []" and "path s \<noteq> []"
  shows "process_arguments raw s =
     (Inr [], write_out (Text ''Error: No arguments provided (use \"None\" where appropriate)'') 2
                (announced True s))"
proof -
  obtain l ls where ls: "splitlines False raw = l # ls"
    using splitlines_nonempty [OF assms(1)] by (cases "splitlines False raw") auto
  with assms(2) have "l = []" by simp
  moreover have "count_list (splitlines False raw) [] = length (splitlines False raw)"
    using count_list_all [OF assms(2)] .
  ultimately show ?thesis
    using ls assms(3) by (simp add: process_arguments_def return_def and_then_def feedback_Error)
qed

text \<open>
  C6. On an object with a path and for a body that is not empty: when the first line of
  the body is \<^verbatim>\<open>None\<close>, \<open>process_arguments\<close> returns the empty list and reports nothing;
  when all its lines are empty, it returns the empty list and reports exactly one Error
  diagnostic. A body is never empty: \<open>process_header\<close>, the only caller, calls
  \<open>process_arguments\<close> under the guard \<^verbatim>\<open>if arguments_raw\<close>.
\<close>

theorem process_arguments_none_or_blank:
  assumes "raw \<noteq> []" and "path s \<noteq> []"
  shows "(hd (splitlines False raw) = ''None'' \<longrightarrow> process_arguments raw s = (Inr [], s)) \<and>
         ((\<forall>l \<in> set (splitlines False raw). l = []) \<longrightarrow>
            fst (process_arguments raw s) = Inr [] \<and>
            diagnostics (snd (process_arguments raw s)) =
              diagnostics s @ [''Error: No arguments provided (use \"None\" where appropriate)''])"
  using process_arguments_None [OF assms(1), of s] process_arguments_blank [OF assms(1) _ assms(2)]
  by (simp add: diagnostics_write_out diagnostics_announced)

theorem process_arguments_none_or_blank_witness:
  "process_arguments ''None\<newline>\<newline>'' (with_header ''.'' ''fnc_x.sqf'' ''/* x */'') =
     (Inr [], with_header ''.'' ''fnc_x.sqf'' ''/* x */'') \<and>
   fst (process_arguments ''\<newline>\<newline>'' (with_header ''.'' ''fnc_x.sqf'' ''/* x */'')) = Inr [] \<and>
   diagnostics (snd (process_arguments ''\<newline>\<newline>'' (with_header ''.'' ''fnc_x.sqf'' ''/* x */''))) =
     [''Error: No arguments provided (use \"None\" where appropriate)'']"
proof -
  let ?s = "with_header ''.'' ''fnc_x.sqf'' ''/* x */''"
  have p: "path ?s \<noteq> []" by (simp add: with_header_fields)
  have n1: "''None\<newline>\<newline>'' \<noteq> []" and n2: "[LF, LF] \<noteq> []" by simp_all
  have a: "hd (splitlines False ''None\<newline>\<newline>'') = ''None''"
    by code_simp
  have b: "\<forall>l \<in> set (splitlines False [LF, LF]). l = []"
    by code_simp
  from process_arguments_none_or_blank [OF n1 p] a
  have 1: "process_arguments ''None\<newline>\<newline>'' ?s = (Inr [], ?s)"
    by blast
  from process_arguments_none_or_blank [OF n2 p] b
  have 2: "fst (process_arguments [LF, LF] ?s) = Inr [] \<and>
      diagnostics (snd (process_arguments [LF, LF] ?s)) =
        diagnostics ?s @ [''Error: No arguments provided (use \"None\" where appropriate)'']"
    by blast
  from 1 2 show ?thesis by (simp add: with_header_fields)
qed


lemma return_path: "path (snd (return x s)) = path s"
  by (simp add: return_def)

lemma raise_path: "path (snd (raise e s)) = path s"
  by (simp add: raise_def)










section \<open>The scenario\<close>

lemma scenario_import:
  "import_header ''fnc_thing.sqf'' scenario_header (FunctionFile ''.'') =
     (Inr (), with_header ''.'' ''fnc_thing.sqf'' scenario_header)"
  by code_simp

lemma scenario_run:
  "process_header False (with_header ''.'' ''fnc_thing.sqf'' scenario_header) =
     (Inr (),
      (with_header ''.'' ''fnc_thing.sqf'' scenario_header)
        \<lparr>public := True,
         authors := [''bux578''],
         description := ''Does a thing.\<newline>\<newline>'',
         arguments := [\<lparr>arg_index = ''0'', arg_name = ''Unit '', arg_types = ''OBJECT'',
                         arg_default = [], arg_notes = []\<rparr>],
         return_value := [''Success '', ''BOOLEAN''],
         example := ''[player] call ace_test_fnc_thing;'',
         header_text := ''\<newline>Author: bux578\<newline>Does a thing.\<newline>\<newline>Arguments:\<newline>0: Unit <OBJECT>\<newline>\<newline>Return Value:\<newline>Success <BOOLEAN>\<newline>\<newline>Example:\<newline>[player] call ace_test_fnc_thing;\<newline>\<newline>Public: Yes\<newline>'',
         sections := [''\<newline>'', ''Author'', ''bux578\<newline>Does a thing.\<newline>\<newline>'',
                      ''Argument'', ''0: Unit <OBJECT>\<newline>\<newline>'',
                      ''Return Value'', ''Success <BOOLEAN>\<newline>\<newline>'',
                      ''Example'', ''[player] call ace_test_fnc_thing;\<newline>\<newline>'',
                      ''Public'', ''Yes\<newline>'']\<rparr>)"
  by code_simp

text \<open>
  C2, as amended. On the header of the scenario \<open>process_header\<close> returns without a
  diagnostic and leaves \<open>public\<close> true, the author \<^verbatim>\<open>bux578\<close>, the example trimmed, and
  \<^item> the description \<^verbatim>\<open>Does a thing.\<close> followed by two newlines: the description is every
    line of the Author body after the first, and the blank line before \<^verbatim>\<open>Arguments:\<close>
    is one of them;
  \<^item> the argument name \<^verbatim>\<open>Unit \<close> and the return name \<^verbatim>\<open>Success \<close>, each with the space
    that stands before the angle bracket: the group of the name takes all the text up
    to the bracket.
\<close>

theorem scenario_parses_to:
  "fst (process_header False (with_header ''.'' ''fnc_thing.sqf'' scenario_header)) = Inr () \<and>
   public (snd (process_header False (with_header ''.'' ''fnc_thing.sqf'' scenario_header))) = True \<and>
   authors (snd (process_header False (with_header ''.'' ''fnc_thing.sqf'' scenario_header))) =
     [''bux578''] \<and>
   description (snd (process_header False (with_header ''.'' ''fnc_thing.sqf'' scenario_header))) =
     ''Does a thing.\<newline>\<newline>'' \<and>
   arguments (snd (process_header False (with_header ''.'' ''fnc_thing.sqf'' scenario_header))) =
     [\<lparr>arg_index = ''0'', arg_name = ''Unit '', arg_types = ''OBJECT'', arg_default = [],
        arg_notes = []\<rparr>] \<and>
   return_value (snd (process_header False (with_header ''.'' ''fnc_thing.sqf'' scenario_header))) =
     [''Success '', ''BOOLEAN''] \<and>
   example (snd (process_header False (with_header ''.'' ''fnc_thing.sqf'' scenario_header))) =
     ''[player] call ace_test_fnc_thing;'' \<and>
   diagnostics (snd (process_header False (with_header ''.'' ''fnc_thing.sqf'' scenario_header))) = []"
  unfolding scenario_run by (simp add: with_header_def FunctionFile_def diagnostics_def)

text \<open>
  The claim C2 as stated fails: the description, the argument name and the return name
  it lists are not the ones \<open>process_header\<close> produces.
\<close>

theorem scenario_claimed_values_differ:
  "\<not> (public (snd (process_header False (with_header ''.'' ''fnc_thing.sqf'' scenario_header))) = True \<and>
      authors (snd (process_header False (with_header ''.'' ''fnc_thing.sqf'' scenario_header))) =
        [''bux578''] \<and>
      description (snd (process_header False (with_header ''.'' ''fnc_thing.sqf'' scenario_header))) =
        ''Does a thing.\<newline>'' \<and>
      arguments (snd (process_header False (with_header ''.'' ''fnc_thing.sqf'' scenario_header))) =
        [\<lparr>arg_index = ''0'', arg_name = ''Unit'', arg_types = ''OBJECT'', arg_default = [],
           arg_notes = []\<rparr>] \<and>
      return_value (snd (process_header False (with_header ''.'' ''fnc_thing.sqf'' scenario_header))) =
        [''Success'', ''BOOLEAN''] \<and>
      example (snd (process_header False (with_header ''.'' ''fnc_thing.sqf'' scenario_header))) =
        ''[player] call ace_test_fnc_thing;'')"
  unfolding scenario_run by (simp add: with_header_def FunctionFile_def)

section \<open>Matching character classes and literals\<close>

lemma advance_0: "advance 0 m = m"
  by (simp add: advance_def)

lemma advance_Suc:
  "rest m = c # cs \<Longrightarrow> advance (Suc k) m = advance k (m\<lparr>prev := Some c, rest := cs\<rparr>)"
  by (cases k) (simp_all add: advance_def)

lemma rest_advance: "rest (advance k m) = drop k (rest m)"
  by (simp add: advance_def)

lemma groups_advance: "groups (advance k m) = groups m"
  by (simp add: advance_def)

lemma concat_map_if:
  "concat (map (\<lambda>x. if Q x then [g x] else []) xs) = map g (filter Q xs)"
  by (induction xs) auto

lemma matches_lit:
  "matches (lit c) m =
     (case rest m of [] \<Rightarrow> [] | x # xs \<Rightarrow> if x = c then [m\<lparr>prev := Some x, rest := xs\<rparr>] else [])"
  by (simp add: lit_def)

lemma matches_lits:
  "matches (lits w) m = (if prefix w (rest m) then [advance (length w) m] else [])"
proof (induction w arbitrary: m)
  case Nil
  then show ?case by (simp add: advance_0)
next
  case (Cons c cs)
  show ?case
  proof (cases "rest m")
    case Nil
    then show ?thesis by (simp add: matches_lit)
  next
    case (Cons x xs)
    show ?thesis
    proof (cases "x = c")
      case True
      with Cons show ?thesis
        using Cons.IH [of "m\<lparr>prev := Some c, rest := xs\<rparr>"]
        by (simp add: matches_lit advance_Suc)
    next
      case False
      with Cons show ?thesis by (simp add: matches_lit)
    qed
  qed
qed

lemma matches_Cls: "matches (Cls P) = cls_step P"
  by (rule ext) (simp add: cls_step_def)

lemma star_lazy_cls_step:
  "length (rest m) \<le> n \<Longrightarrow>
     star_lazy (cls_step P) n m =
       map (\<lambda>k. advance k m) [0..<Suc (length (takeWhile P (rest m)))]"
proof (induction n arbitrary: m)
  case 0
  then show ?case by (simp add: advance_0)
next
  case (Suc n)
  show ?case
  proof (cases "rest m")
    case Nil
    then show ?thesis by (simp add: advance_0 cls_step_def)
  next
    case (Cons c cs)
    show ?thesis
    proof (cases "P c")
      case True
      let ?m' = "m\<lparr>prev := Some c, rest := cs\<rparr>"
      have "length (rest ?m') \<le> n" using Suc.prems Cons by simp
      from Suc.IH [OF this]
      have ih: "star_lazy (cls_step P) n ?m' =
          map (\<lambda>k. advance (Suc k) m) [0..<Suc (length (takeWhile P cs))]"
        using advance_Suc [OF Cons] by simp
      have step: "cls_step P m = [?m']" using Cons True by (simp add: cls_step_def)
      have "star_lazy (cls_step P) (Suc n) m = m # star_lazy (cls_step P) n ?m'"
        using Cons by (simp add: step)
      also have "\<dots> = advance 0 m # map (\<lambda>k. advance (Suc k) m) [0..<Suc (length (takeWhile P cs))]"
        by (simp only: ih advance_0)
      also have "\<dots> = map (\<lambda>k. advance k m) [0..<Suc (Suc (length (takeWhile P cs)))]"
        by (rule map_upt_Suc [of "\<lambda>k. advance k m" "Suc (length (takeWhile P cs))", symmetric])
      finally show ?thesis using Cons True by simp
    next
      case False
      then show ?thesis using Cons by (simp add: advance_0 cls_step_def)
    qed
  qed
qed

lemma star_cls_step:
  "length (rest m) \<le> n \<Longrightarrow>
     star (cls_step P) n m =
       map (\<lambda>k. advance k m) (rev [0..<Suc (length (takeWhile P (rest m)))])"
proof (induction n arbitrary: m)
  case 0
  then show ?case by (simp add: advance_0)
next
  case (Suc n)
  show ?case
  proof (cases "rest m")
    case Nil
    then show ?thesis by (simp add: advance_0 cls_step_def)
  next
    case (Cons c cs)
    show ?thesis
    proof (cases "P c")
      case True
      let ?m' = "m\<lparr>prev := Some c, rest := cs\<rparr>"
      have "length (rest ?m') \<le> n" using Suc.prems Cons by simp
      from Suc.IH [OF this]
      have ih: "star (cls_step P) n ?m' =
          map (\<lambda>k. advance (Suc k) m) (rev [0..<Suc (length (takeWhile P cs))])"
        using advance_Suc [OF Cons] by simp
      have step: "cls_step P m = [?m']" using Cons True by (simp add: cls_step_def)
      have "star (cls_step P) (Suc n) m = star (cls_step P) n ?m' @ [m]"
        using Cons by (simp add: step)
      also have "\<dots> = map (\<lambda>k. advance (Suc k) m) (rev [0..<Suc (length (takeWhile P cs))]) @ [advance 0 m]"
        by (simp only: ih advance_0)
      also have "\<dots> = map (\<lambda>k. advance k m) (rev [0..<Suc (Suc (length (takeWhile P cs)))])"
        unfolding map_upt_Suc [of "\<lambda>k. advance k m" "Suc (length (takeWhile P cs))"] rev_map [symmetric]
        by (simp only: rev.simps list.map)
      finally show ?thesis using Cons True by simp
    next
      case False
      then show ?thesis using Cons by (simp add: advance_0 cls_step_def)
    qed
  qed
qed

lemma filter_upt_first:
  "filter Q [a..<b] = k # ks \<Longrightarrow> a \<le> k \<and> k < b \<and> Q k \<and> (\<forall>j. a \<le> j \<and> j < k \<longrightarrow> \<not> Q j)"
proof (induction "b - a" arbitrary: a)
  case 0
  then show ?case by simp
next
  case (Suc n)
  then have ab: "a < b" by simp
  then have upt: "[a..<b] = a # [Suc a..<b]" by (rule upt_conv_Cons)
  show ?case
  proof (cases "Q a")
    case True
    with Suc.prems upt have "k = a" by simp
    moreover have "\<not> (a \<le> j \<and> j < a)" for j by simp
    ultimately show ?thesis using True ab by blast
  next
    case False
    with Suc.prems upt have f: "filter Q [Suc a..<b] = k # ks" by simp
    have "n = b - Suc a" using Suc.hyps(2) by simp
    from Suc.hyps(1) [OF this f]
    have ih: "Suc a \<le> k" "k < b" "Q k" "\<And>j. Suc a \<le> j \<Longrightarrow> j < k \<Longrightarrow> \<not> Q j"
      by blast+
    have "\<not> Q j" if "a \<le> j" "j < k" for j
    proof (cases "j = a")
      case True
      with False show ?thesis by simp
    next
      case False
      with that have "Suc a \<le> j" by simp
      with that ih(4) show ?thesis by blast
    qed
    with ih show ?thesis by simp
  qed
qed

lemma filter_upt_empty:
  "filter Q [a..<b] = [] \<longleftrightarrow> (\<forall>j. a \<le> j \<and> j < b \<longrightarrow> \<not> Q j)"
proof -
  have "filter Q [a..<b] = [] \<longleftrightarrow> (\<forall>j \<in> set [a..<b]. \<not> Q j)"
    by (rule filter_empty_conv)
  also have "\<dots> \<longleftrightarrow> (\<forall>j. a \<le> j \<and> j < b \<longrightarrow> \<not> Q j)"
    by (simp add: Ball_def)
  finally show ?thesis .
qed

lemma matches_plus_lazy_dot_all:
  "matches (plus_lazy dot_all) m = map (\<lambda>k. advance k m) [1..<Suc (length (rest m))]"
proof (cases "rest m")
  case Nil
  then show ?thesis by (simp add: plus_lazy_def dot_all_def)
next
  case (Cons c cs)
  let ?m' = "m\<lparr>prev := Some c, rest := cs\<rparr>"
  have "matches (plus_lazy dot_all) m = star_lazy (cls_step (\<lambda>c. True)) (length cs) ?m'"
    using Cons by (simp add: plus_lazy_def dot_all_def matches_Cls [symmetric])
  also have "\<dots> = map (\<lambda>k. advance k ?m') [0..<Suc (length cs)]"
    using star_lazy_cls_step [of ?m' "length cs" "\<lambda>c. True"]
    by (simp add: takeWhile_eq_all_conv [THEN iffD2] del: upt_Suc)
  also have "\<dots> = map (\<lambda>k. advance (Suc k) m) [0..<Suc (length cs)]"
    using advance_Suc [OF Cons] by simp
  also have "\<dots> = map (\<lambda>k. advance k m) (map Suc [0..<Suc (length cs)])"
    by (simp only: map_map comp_def)
  also have "map Suc [0..<Suc (length cs)] = [1..<Suc (length (rest m))]"
    using Cons by (simp only: map_Suc_upt) simp
  finally show ?thesis .
qed

lemma matches_body_close:
  "matches (Seq (plus_lazy dot_all) (lits ''*/'')) m =
     map (\<lambda>k. advance 2 (advance k m))
       (filter (\<lambda>k. prefix ''*/'' (drop k (rest m))) [1..<Suc (length (rest m))])"
proof -
  have l: "length ''*/'' = 2" by simp
  have "matches (Seq (plus_lazy dot_all) (lits ''*/'')) m =
      concat (map (\<lambda>k. if prefix ''*/'' (drop k (rest m)) then [advance 2 (advance k m)] else [])
        [1..<Suc (length (rest m))])"
    by (simp only: matches.simps matches_plus_lazy_dot_all map_map comp_def matches_lits
        rest_advance l)
  then show ?thesis by (simp only: concat_map_if)
qed

lemma matches_star_space_then:
  assumes "\<And>m. rest m = [] \<or> isspace (hd (rest m)) \<Longrightarrow> matches r m = []"
  shows "matches (Seq (Star (Cls isspace)) r) m =
           matches r (advance (length (takeWhile isspace (rest m))) m)"
proof -
  let ?n = "length (takeWhile isspace (rest m))"
  have none: "matches r (advance k m) = []" if "k < ?n" for k
  proof -
    have "k < length (rest m)" using that length_takeWhile_le [of isspace "rest m"] by simp
    moreover have "isspace (rest m ! k)"
      using that by (metis nth_mem set_takeWhileD takeWhile_nth)
    ultimately have "isspace (hd (rest (advance k m)))"
      by (simp add: rest_advance hd_drop_conv_nth)
    then show ?thesis using assms by simp
  qed
  have "matches (Seq (Star (Cls isspace)) r) m =
      concat (map (matches r) (map (\<lambda>k. advance k m) (rev [0..<Suc ?n])))"
    using star_cls_step [of m "length (rest m)" isspace]
    by (simp add: matches_Cls del: upt_Suc)
  also have "\<dots> = matches r (advance ?n m) @ concat (map (\<lambda>k. matches r (advance k m)) (rev [0..<?n]))"
    by (simp add: comp_def)
  also have "concat (map (\<lambda>k. matches r (advance k m)) (rev [0..<?n])) = []"
    using none by (simp add: concat_eq_Nil_conv)
  finally show ?thesis by simp
qed

section \<open>The header\<close>

lemma matches_header_re:
  "matches header_re m =
     (let k0 = length (takeWhile isspace (rest m)); m1 = advance k0 m
      in if prefix ''/*'' (rest m1) then
           map (\<lambda>k. advance 2 (advance k (advance 2 m1)))
             (filter (\<lambda>k. prefix ''*/'' (drop k (rest (advance 2 m1))))
                [1..<Suc (length (rest (advance 2 m1)))])
         else [])"
proof -
  let ?r = "Seq (lits ''/*'') (Seq (plus_lazy dot_all) (lits ''*/''))"
  have l: "length ''/*'' = 2" by simp
  have r: "matches ?r m' =
      (if prefix ''/*'' (rest m') then matches (Seq (plus_lazy dot_all) (lits ''*/'')) (advance 2 m')
       else [])" for m'
    unfolding matches.simps(6) [of "lits ''/*''"] matches_lits l by simp
  have none: "matches ?r m' = []" if "rest m' = [] \<or> isspace (hd (rest m'))" for m'
  proof (cases "rest m'")
    case Nil
    then show ?thesis unfolding r by simp
  next
    case (Cons c cs)
    with that have "c \<noteq> CHR ''/''" by (auto simp: isspace_def)
    with Cons show ?thesis unfolding r by simp
  qed
  have "header_re = Seq (Star (Cls isspace)) ?r"
    by (simp add: header_re_def)
  then show ?thesis
    unfolding Let_def
    using matches_star_space_then [of ?r m, OF none] r matches_body_close
    by simp
qed

lemma space_prefix_unique:
  assumes "code = ws @ ''/*'' @ t" and "\<forall>c \<in> set ws. isspace c"
  shows "takeWhile isspace code = ws" and "dropWhile isspace code = ''/*'' @ t"
proof -
  have "\<not> isspace (CHR ''/'')" by (simp add: isspace_def)
  then show "takeWhile isspace code = ws" and "dropWhile isspace code = ''/*'' @ t"
    using assms by (simp_all add: takeWhile_append2 dropWhile_append2)
qed

lemma re_match_header_cases:
  fixes code :: string
  defines "x \<equiv> drop 2 (dropWhile isspace code)"
  defines "ks \<equiv> filter (\<lambda>k. prefix ''*/'' (drop k x)) [1..<Suc (length x)]"
  shows "re_match header_re code =
     (if prefix ''/*'' (dropWhile isspace code) then
        (case ks of [] \<Rightarrow> None
         | k # _ \<Rightarrow> Some (advance 2 (advance k (advance 2
               (advance (length (takeWhile isspace code)) \<lparr>prev = None, rest = code, groups = []\<rparr>)))))
      else None)"
  unfolding re_match_def matches_header_re Let_def x_def ks_def
  by (simp add: rest_advance dropWhile_eq_drop split: list.splits)

lemma header_match_Some:
  assumes "re_match header_re code = Some m"
  shows "\<exists>b. b \<noteq> [] \<and> code = takeWhile isspace code @ ''/*'' @ b @ ''*/'' @ rest m \<and>
           (\<forall>b' r'. b' \<noteq> [] \<and> code = takeWhile isspace code @ ''/*'' @ b' @ ''*/'' @ r'
              \<longrightarrow> length b \<le> length b')"
proof -
  define ws where "ws = takeWhile isspace code"
  define x where "x = drop 2 (dropWhile isspace code)"
  define Q where "Q = (\<lambda>k. prefix ''*/'' (drop k x))"
  define m0 where "m0 = \<lparr>prev = None, rest = code, groups = []\<rparr>"
  from assms have open_ok: "prefix ''/*'' (dropWhile isspace code)"
    unfolding re_match_header_cases by (simp split: if_splits)
  with assms obtain k ks where ks: "filter Q [1..<Suc (length x)] = k # ks"
    and m: "m = advance 2 (advance k (advance 2 (advance (length ws) m0)))"
    unfolding re_match_header_cases Q_def x_def ws_def m0_def
    by (auto split: list.splits)
  from filter_upt_first [OF ks]
  have k: "1 \<le> k" "k < Suc (length x)" "Q k" and least: "\<And>j. 1 \<le> j \<Longrightarrow> j < k \<Longrightarrow> \<not> Q j"
    by blast+
  have code: "code = ws @ dropWhile isspace code"
    by (simp add: ws_def)
  from open_ok have dw: "dropWhile isspace code = ''/*'' @ x"
    unfolding x_def prefix_def by auto
  from k(3) obtain zs where zs: "drop k x = ''*/'' @ zs"
    unfolding Q_def prefix_def by blast
  have "drop 2 (drop k x) = zs" unfolding zs by simp
  with zs have dk: "drop k x = ''*/'' @ drop 2 (drop k x)" by simp
  have restm: "rest m = drop 2 (drop k x)"
    unfolding m x_def ws_def m0_def
    by (simp add: rest_advance dropWhile_eq_drop)
  let ?b = "take k x"
  have xk: "x = ?b @ ''*/'' @ rest m"
    using dk restm by (metis append_take_drop_id)
  have len: "length ?b = k" using k(2) by simp
  have 1: "?b \<noteq> []" using len k(1) by auto
  have 2: "code = ws @ ''/*'' @ ?b @ ''*/'' @ rest m"
    using code dw xk by simp
  have 3: "length ?b \<le> length b'"
    if "b' \<noteq> []" and "code = ws @ ''/*'' @ b' @ ''*/'' @ r'" for b' r'
  proof (rule ccontr)
    assume "\<not> length ?b \<le> length b'"
    then have lt: "length b' < k" using len by simp
    from that(2) code dw have "x = b' @ ''*/'' @ r'" by simp
    then have "Q (length b')" unfolding Q_def by simp
    moreover have "1 \<le> length b'" using that(1) by (cases b') auto
    ultimately show False using least lt by blast
  qed
  from 1 2 3 show ?thesis unfolding ws_def by blast
qed

lemma header_match_None:
  assumes "re_match header_re code = None"
    and "code = ws @ ''/*'' @ b @ ''*/'' @ r" and "\<forall>c \<in> set ws. isspace c"
  shows "b = []"
proof (rule ccontr)
  assume b: "b \<noteq> []"
  define x where "x = drop 2 (dropWhile isspace code)"
  define Q where "Q = (\<lambda>k. prefix ''*/'' (drop k x))"
  from space_prefix_unique [OF assms(2,3)]
  have dw: "dropWhile isspace code = ''/*'' @ b @ ''*/'' @ r" by simp
  then have x: "x = b @ ''*/'' @ r" by (simp add: x_def)
  from dw have p: "prefix ''/*'' (dropWhile isspace code)" by simp
  have "(case filter Q [1..<Suc (length x)] of [] \<Rightarrow> None
         | k # _ \<Rightarrow> Some (advance 2 (advance k (advance 2
               (advance (length (takeWhile isspace code)) \<lparr>prev = None, rest = code, groups = []\<rparr>)))))
         = None"
    using assms(1) p unfolding re_match_header_cases x_def Q_def by (simp only: if_True)
  then have "filter Q [1..<Suc (length x)] = []"
    by (cases "filter Q [1..<Suc (length x)]") simp_all
  then have "\<forall>j. 1 \<le> j \<and> j < Suc (length x) \<longrightarrow> \<not> Q j"
    by (simp only: filter_upt_empty)
  moreover have "1 \<le> length b" using b by (cases b) auto
  moreover have "length b < Suc (length x)" using x by simp
  ultimately have "\<not> Q (length b)" by blast
  with x show False by (simp add: Q_def)
qed

lemma import_header_found:
  assumes "re_match header_re code = Some m" and "fp \<noteq> []"
  shows "import_header fp code (FunctionFile dir) = (Inr (), with_header dir fp (group0 code m))"
  using assms by (simp add: import_header_def Let_def return_def with_header_def)

lemma import_header_missing:
  assumes "re_match header_re code = None" and "fp \<noteq> []"
  shows "import_header fp code (FunctionFile dir) =
     (Inr (), write_out (Text ''Aborted: Missing header'') 2
                (announced True ((FunctionFile dir)\<lparr>path := fp\<rparr>)))"
  using assms by (simp add: import_header_def Let_def feedback_Aborted)

lemma header_span_of_match:
  assumes "re_match header_re code = Some m"
  shows "header_span code (group0 code m)"
    and "header_span code h \<Longrightarrow> prefix (group0 code m) h"
proof -
  define ws where "ws = takeWhile isspace code"
  from header_match_Some [OF assms] obtain b where b: "b \<noteq> []"
    and code: "code = ws @ ''/*'' @ b @ ''*/'' @ rest m"
    and least: "\<And>b' r'. b' \<noteq> [] \<Longrightarrow> code = ws @ ''/*'' @ b' @ ''*/'' @ r' \<Longrightarrow> length b \<le> length b'"
    unfolding ws_def by blast
  define g where "g = ws @ ''/*'' @ b @ ''*/''"
  have cg: "code = g @ rest m" using code by (simp add: g_def)
  then have "length code - length (rest m) = length g" by simp
  then have "group0 code m = take (length g) code" by (simp only: group0_def)
  also have "\<dots> = g" by (subst cg) simp
  finally have g: "group0 code m = ws @ ''/*'' @ b @ ''*/''" by (simp add: g_def)
  have ws: "\<forall>c \<in> set ws. isspace c" unfolding ws_def by (auto dest: set_takeWhileD)
  have pg: "prefix (group0 code m) code"
    using cg g by (metis g_def prefixI)
  with g b ws show "header_span code (group0 code m)"
    unfolding header_span_def by metis
  assume "header_span code h"
  then obtain ws' b' r' where h: "h = ws' @ ''/*'' @ b' @ ''*/''"
    and ws': "\<forall>c \<in> set ws'. isspace c" and b': "b' \<noteq> []" and c': "code = h @ r'"
    unfolding header_span_def prefix_def by blast
  from c' h have c'': "code = ws' @ ''/*'' @ (b' @ ''*/'' @ r')" by simp
  from space_prefix_unique(1) [OF c'' ws'] have eq: "ws = ws'" by (simp add: ws_def)
  from c' h eq have "code = ws @ ''/*'' @ b' @ ''*/'' @ r'" by simp
  from least [OF b' this] have le: "length b \<le> length b'" .
  have "prefix h code" using c' by (simp add: prefix_def)
  moreover have "length (group0 code m) \<le> length h" using g h eq le by simp
  ultimately show "prefix (group0 code m) h"
    using pg by (metis prefix_length_prefix)
qed

lemma no_header_span:
  assumes "re_match header_re code = None"
  shows "\<not> header_span code h"
proof
  assume "header_span code h"
  then obtain ws b r where "code = ws @ ''/*'' @ b @ ''*/'' @ r"
    and "\<forall>c \<in> set ws. isspace c" and "b \<noteq> []"
    unfolding header_span_def prefix_def by auto
  with header_match_None [OF assms] show False by blast
qed

text \<open>
  C4, as amended. \<open>import_header\<close> on a new object, for a file with a path that is not
  empty, does not raise. It finds a header
  exactly when the text has a header span: leading white space, \<^verbatim>\<open>/*\<close>, at least one
  character, \<^verbatim>\<open>*/\<close>. The header is then the shortest such span (it is one, and it is a
  prefix of every other) and nothing is reported. When the text has no such span, the
  header stays empty and the one diagnostic is \<^verbatim>\<open>Aborted: Missing header\<close>.
\<close>

theorem import_header_spec:
  assumes "fp \<noteq> []"
  shows
  "fst (import_header fp code (FunctionFile dir)) = Inr () \<and>
   (has_header (snd (import_header fp code (FunctionFile dir))) \<longleftrightarrow> (\<exists>h. header_span code h)) \<and>
   (\<forall>h. header_span code h \<longrightarrow>
      header_span code (header (snd (import_header fp code (FunctionFile dir)))) \<and>
      prefix (header (snd (import_header fp code (FunctionFile dir)))) h \<and>
      diagnostics (snd (import_header fp code (FunctionFile dir))) = []) \<and>
   ((\<forall>h. \<not> header_span code h) \<longrightarrow>
      header (snd (import_header fp code (FunctionFile dir))) = [] \<and>
      diagnostics (snd (import_header fp code (FunctionFile dir))) = [''Aborted: Missing header''])"
proof (cases "re_match header_re code")
  case None
  note run = import_header_missing [OF None assms, of dir]
  have h: "header (snd (import_header fp code (FunctionFile dir))) = []"
    unfolding run by (simp add: write_out_def announced_def FunctionFile_def)
  have d0: "diagnostics ((FunctionFile dir)\<lparr>path := fp\<rparr>) = []"
    by (simp add: diagnostics_def FunctionFile_def)
  have d: "diagnostics (snd (import_header fp code (FunctionFile dir))) = [''Aborted: Missing header'']"
    unfolding run by (simp add: diagnostics_write_out diagnostics_announced d0)
  have f: "fst (import_header fp code (FunctionFile dir)) = Inr ()"
    unfolding run by simp
  from no_header_span [OF None] h d f show ?thesis
    by (simp add: has_header_def)
next
  case (Some m)
  note run = import_header_found [OF Some assms, of dir]
  have h: "header (snd (import_header fp code (FunctionFile dir))) = group0 code m"
    unfolding run by (simp add: with_header_def)
  have d: "diagnostics (snd (import_header fp code (FunctionFile dir))) = []"
    unfolding run by (simp add: with_header_def diagnostics_def FunctionFile_def)
  have f: "fst (import_header fp code (FunctionFile dir)) = Inr ()"
    unfolding run by simp
  have sp: "header_span code (group0 code m)" by (rule header_span_of_match(1) [OF Some])
  then have ne: "group0 code m \<noteq> []" unfolding header_span_def by auto
  from header_span_of_match(2) [OF Some] sp ne h d f show ?thesis
    by (auto simp: has_header_def)
qed

theorem import_header_spec_witness:
  "header_span '' /* a */ b */'' '' /* a */'' \<and>
   has_header (snd (import_header ''fnc_x.sqf'' '' /* a */ b */'' (FunctionFile ''.''))) \<and>
   prefix (header (snd (import_header ''fnc_x.sqf'' '' /* a */ b */'' (FunctionFile ''.'')))) '' /* a */'' \<and>
   diagnostics (snd (import_header ''fnc_x.sqf'' '' /* a */ b */'' (FunctionFile ''.''))) = [] \<and>
   \<not> has_header (snd (import_header ''fnc_x.sqf'' ''x = 1;'' (FunctionFile ''.''))) \<and>
   diagnostics (snd (import_header ''fnc_x.sqf'' ''x = 1;'' (FunctionFile ''.''))) =
     [''Aborted: Missing header'']"
proof -
  have sp: "header_span '' /* a */ b */'' '' /* a */''"
    unfolding header_span_def
    by (rule exI [of _ "'' ''"], rule exI [of _ "'' a ''"]) (simp add: isspace_def)
  have fp: "''fnc_x.sqf'' \<noteq> []" by simp
  note w1 = import_header_spec [OF fp, where code = "'' /* a */ b */''" and dir = "''.''"]
  from w1 sp have a: "has_header (snd (import_header ''fnc_x.sqf'' '' /* a */ b */'' (FunctionFile ''.'')))"
    by blast
  from w1 sp have b: "prefix (header (snd (import_header ''fnc_x.sqf'' '' /* a */ b */'' (FunctionFile ''.'')))) '' /* a */''"
    by blast
  from w1 sp have c: "diagnostics (snd (import_header ''fnc_x.sqf'' '' /* a */ b */'' (FunctionFile ''.''))) = []"
    by blast
  note w2 = import_header_spec [OF fp, where code = "''x = 1;''" and dir = "''.''"]
  have d: "\<not> has_header (snd (import_header ''fnc_x.sqf'' ''x = 1;'' (FunctionFile ''.'')))"
    by code_simp
  with w2 have "\<forall>h. \<not> header_span ''x = 1;'' h" by blast
  with w2 have e: "diagnostics (snd (import_header ''fnc_x.sqf'' ''x = 1;'' (FunctionFile ''.''))) =
     [''Aborted: Missing header'']" by blast
  from sp a b c d e show ?thesis by blast
qed

text \<open>
  The claim C4 as stated fails on the text \<^verbatim>\<open>/**/\<close>: it begins with the opening delimiter
  and a closing delimiter follows, but the pattern asks for a character between the two,
  so no header is found and the file is reported as missing its header.
\<close>

theorem empty_comment_is_no_header:
  "claimed_header_present ''/**/'' \<and>
   \<not> has_header (snd (import_header ''fnc_x.sqf'' ''/**/'' (FunctionFile ''.''))) \<and>
   diagnostics (snd (import_header ''fnc_x.sqf'' ''/**/'' (FunctionFile ''.''))) =
     [''Aborted: Missing header'']"
  by code_simp

section \<open>The labels of the diagnostics\<close>

lemma labelled_labels:
  "labelled (''Info: '' @ msg)" "labelled (''Warning: '' @ msg)"
  "labelled (''Error: '' @ msg)" "labelled (''Aborted: '' @ msg)"
  by (simp_all add: labelled_def priority_strs_def)

lemma sections_announced: "sections (announced e s) = sections s"
  by (simp add: announced_def write_out_def)

lemma sections_write_out: "sections (write_out m i s) = sections s"
  by (simp add: write_out_def)

lemma fit_report:
  assumes "fit s" and "labelled t"
  shows "fit (write_out (Text t) 2 (announced e s))"
  using assms
  by (simp add: fit_def diagnostics_write_out diagnostics_announced path_write_out path_announced
      sections_write_out sections_announced)

lemma keeps_feedback:
  assumes "level = 0 \<or> level = 1 \<or> level = 2 \<or> level = 3"
  shows "keeps (feedback msg level)"
  unfolding keeps_def
proof (intro allI impI)
  fix s assume fit: "fit s"
  then have p: "path s \<noteq> []" by (simp add: fit_def)
  from assms consider "level = 0" | "level = 1" | "level = 2" | "level = 3" by blast
  then show "fit (snd (feedback msg level s)) \<and> fst (feedback msg level s) \<noteq> Inl IndexError"
  proof cases
    case 1
    then show ?thesis using fit_report [OF fit labelled_labels(1)] by (simp add: feedback_Info [OF p])
  next
    case 2
    then show ?thesis using fit_report [OF fit labelled_labels(2)] by (simp add: feedback_Warning [OF p])
  next
    case 3
    then show ?thesis using fit_report [OF fit labelled_labels(3)] by (simp add: feedback_Error [OF p])
  next
    case 4
    then show ?thesis using fit_report [OF fit labelled_labels(4)] by (simp add: feedback_Aborted [OF p])
  qed
qed

lemma keeps_return: "keeps (return x)"
  by (simp add: keeps_def return_def)

lemma keeps_raise: "e \<noteq> IndexError \<Longrightarrow> keeps (raise e)"
  by (simp add: keeps_def raise_def)

lemma keeps_modify: "(\<And>s. fit s \<Longrightarrow> fit (f s)) \<Longrightarrow> keeps (modify f)"
  by (simp add: keeps_def modify_def)

lemma keeps_and_then:
  assumes "keeps f" and "\<And>x. keeps (g x)"
  shows "keeps (and_then f g)"
  unfolding keeps_def
proof (intro allI impI)
  fix s assume fit: "fit s"
  obtain r s1 where f: "f s = (r, s1)" by (cases "f s")
  with assms(1) fit have 1: "fit s1" "r \<noteq> Inl IndexError" by (auto simp: keeps_def)
  show "fit (snd (and_then f g s)) \<and> fst (and_then f g s) \<noteq> Inl IndexError"
  proof (cases r)
    case (Inl e)
    with f 1 show ?thesis by (simp add: and_then_def)
  next
    case (Inr x)
    with f 1 assms(2) [of x] show ?thesis by (simp add: and_then_def keeps_def)
  qed
qed

lemma keeps_if: "(c \<Longrightarrow> keeps f) \<Longrightarrow> (\<not> c \<Longrightarrow> keeps g) \<Longrightarrow> keeps (if c then f else g)"
  by simp

lemma keeps_when: "keeps f \<Longrightarrow> keeps g \<Longrightarrow> keeps (\<lambda>s. if c s then f s else g s)"
  by (simp add: keeps_def)

lemma list_index_Some:
  "list_index xs x = Some i \<Longrightarrow> i < length xs \<and> xs ! i = x"
proof (induction xs arbitrary: i)
  case Nil
  then show ?case by simp
next
  case (Cons y ys)
  then show ?case by (cases "y = x") auto
qed

lemma keeps_get_section:
  assumes "n \<in> set section_names"
  shows "keeps (get_section n)"
  unfolding keeps_def
proof (intro allI impI)
  fix s assume fit: "fit s"
  show "fit (snd (get_section n s)) \<and> fst (get_section n s) \<noteq> Inl IndexError"
  proof (cases "list_index (sections s) n")
    case None
    define f :: "string action"
      where "f = and_then (feedback (''Missing \"'' @ n @ ''\" header section'') 2) (\<lambda>_. return [])"
    have "keeps f"
      unfolding f_def by (intro keeps_and_then keeps_feedback keeps_return) simp
    with fit have "fit (snd (f s)) \<and> fst (f s) \<noteq> Inl IndexError"
      unfolding keeps_def by blast
    moreover have "get_section n s = f s"
      using None by (simp add: get_section_def f_def)
    ultimately show ?thesis by simp
  next
    case (Some i)
    from list_index_Some [OF this] have i: "i < length (sections s)" "sections s ! i = n" by simp_all
    then have ne: "sections s \<noteq> []" by auto
    with fit have "last (sections s) \<notin> set section_names" by (simp add: fit_def)
    with assms i(2) have "sections s ! i \<noteq> last (sections s)" by auto
    with ne have "i \<noteq> length (sections s) - 1" by (auto simp: last_conv_nth)
    with i(1) have "i + 1 < length (sections s)" by simp
    with Some fit show ?thesis by (simp add: get_section_def return_def)
  qed
qed

lemma keeps_process_public: "keeps (process_public raw)"
proof -
  have "process_public raw =
      and_then
        (if re_match public_re (butlast raw) = None
         then feedback (''Invalid public value \"'' @ butlast raw @ ''\"'') 2
         else return ())
        (\<lambda>_. return (capitalize (butlast raw) = ''Yes''))"
    by (rule ext) (simp add: process_public_def Let_def)
  then show ?thesis
    by (simp only:) (intro keeps_and_then keeps_if keeps_feedback keeps_return, simp)
qed

lemma keeps_process_author: "raw \<noteq> [] \<Longrightarrow> keeps (process_author raw)"
proof -
  assume "raw \<noteq> []"
  then obtain l ls where ls: "splitlines False raw = l # ls"
    using splitlines_nonempty [of raw False] by (cases "splitlines False raw") auto
  have "process_author raw = return (split '', '' l)"
    by (rule ext) (simp add: process_author_def ls)
  then show ?thesis by (simp only: keeps_return)
qed

lemma keeps_process_description: "keeps (process_description raw)"
  by (simp add: keeps_def process_description_def return_def)

lemma keeps_process_argument: "keeps (process_argument line args)"
proof (cases "re_match argument_re line")
  case None
  have "process_argument line args =
     (if re_match index_re line \<noteq> None \<or> args = []
      then and_then (feedback (''Malformed argument \"'' @ line @ ''\"'') 2) (\<lambda>_. return args)
      else return (butlast args @ [(last args)\<lparr>arg_notes := arg_notes (last args) @ [line]\<rparr>]))"
    by (rule ext) (simp add: process_argument_def None)
  then show ?thesis
    by (simp only:) (intro keeps_and_then keeps_if keeps_feedback keeps_return, simp)
next
  case (Some valid)
  have "process_argument line args =
     and_then
      (if group_str valid 1 \<noteq> str_nat (length args)
       then feedback (''Argument index '' @ group_str valid 1 @ '' does not match listed order'') 1
       else return ())
      (\<lambda>_. return (args @
         [\<lparr>arg_index = group_str valid 1, arg_name = group_str valid 2, arg_types = group_str valid 3,
           arg_default = (case group valid 5 of None \<Rightarrow> [] | Some d \<Rightarrow> d),
           arg_notes = []\<rparr>]))"
    by (rule ext) (simp add: process_argument_def Some Let_def)
  then show ?thesis
    by (simp only:) (intro keeps_and_then keeps_if keeps_feedback keeps_return, simp)
qed

lemma keeps_process_argument_lines: "keeps (process_argument_lines lines args)"
proof (induction lines arbitrary: args)
  case Nil
  have "process_argument_lines [] args = return args" by (rule ext) simp
  then show ?case by (simp only: keeps_return)
next
  case (Cons l ls)
  show ?case
    unfolding keeps_def
  proof (intro allI impI)
    fix s assume fit: "fit s"
    obtain r s1 where f: "process_argument l args s = (r, s1)" by (cases "process_argument l args s")
    with keeps_process_argument [of l args] fit have 1: "fit s1" "r \<noteq> Inl IndexError"
      by (auto simp: keeps_def)
    show "fit (snd (process_argument_lines (l # ls) args s)) \<and>
          fst (process_argument_lines (l # ls) args s) \<noteq> Inl IndexError"
    proof (cases r)
      case (Inl e)
      with f 1 show ?thesis by simp
    next
      case (Inr args1)
      with f 1 Cons.IH [of args1] show ?thesis by (simp add: keeps_def)
    qed
  qed
qed

lemma keeps_process_arguments: "raw \<noteq> [] \<Longrightarrow> keeps (process_arguments raw)"
proof -
  assume "raw \<noteq> []"
  then obtain l ls where ls: "splitlines False raw = l # ls"
    using splitlines_nonempty [of raw False] by (cases "splitlines False raw") auto
  have "process_arguments raw =
     (if l = ''None'' then return []
      else if count_list (l # ls) [] = length (l # ls)
      then and_then (feedback ''No arguments provided (use \"None\" where appropriate)'' 2)
             (\<lambda>_. return [])
      else and_then
             (if last (l # ls) = [] then return (butlast (l # ls))
              else and_then (feedback ''No blank line after arguments list'' 1)
                     (\<lambda>_. return (l # ls)))
             (\<lambda>lines. process_argument_lines lines []))"
    by (rule ext) (simp add: process_arguments_def ls)
  then show ?thesis
    by (simp only:)
       (intro keeps_and_then keeps_if keeps_feedback keeps_return keeps_process_argument_lines, simp_all)
qed

lemma keeps_process_return_value: "keeps (process_return_value raw)"
proof -
  have "process_return_value raw =
     (if title (strip raw) = ''None'' then return [''None'', ''N/A'']
      else (case re_match return_re (strip raw) of
              Some valid \<Rightarrow> return [group_str valid 1, group_str valid 2]
            | None \<Rightarrow>
                and_then (feedback (''Malformed return value \"'' @ strip raw @ ''\"'') 2)
                  (\<lambda>_. raise UnboundLocalError)))"
    by (rule ext) (simp add: process_return_value_def Let_def split: option.splits)
  moreover have "keeps (and_then (feedback (''Malformed return value \"'' @ strip raw @ ''\"'') 2)
                  (\<lambda>_. raise UnboundLocalError :: string list action))"
    by (intro keeps_and_then keeps_feedback keeps_raise) simp_all
  ultimately show ?thesis
    by (cases "re_match return_re (strip raw)") (simp_all add: keeps_return)
qed

section \<open>The last fragment of the header text\<close>

lemma is_linebreak_LF: "is_linebreak LF"
  by (simp add: is_linebreak_def)

lemma splitlines_from_last:
  "s \<noteq> [] \<Longrightarrow> \<not> is_linebreak (last s) \<Longrightarrow>
     splitlines_from k line s \<noteq> [] \<and> last (splitlines_from k line s) \<noteq> [] \<and>
     last (last (splitlines_from k line s)) = last s"
proof (induction k line s rule: splitlines_from.induct)
  case (1 keepends line)
  then show ?case by simp
next
  case (2 keepends line c)
  then show ?case by simp
next
  case (3 keepends line c d cs)
  show ?case
  proof (cases "c = CR \<and> d = LF")
    case True
    with "3.prems" is_linebreak_LF have cs: "cs \<noteq> []" by (cases cs) auto
    with "3.prems" have "\<not> is_linebreak (last cs)" by simp
    from "3.IH"(1) [OF True cs this]
    have ih: "splitlines_from keepends [] cs \<noteq> []" "last (splitlines_from keepends [] cs) \<noteq> []"
      "last (last (splitlines_from keepends [] cs)) = last cs" by simp_all
    have "splitlines_from keepends line (c # d # cs) =
        (line @ (if keepends then [c, d] else [])) # splitlines_from keepends [] cs"
      using True by simp
    with ih cs show ?thesis by simp
  next
    case False
    from "3.prems" have p: "d # cs \<noteq> []" "\<not> is_linebreak (last (d # cs))" by simp_all
    have l: "last (c # d # cs) = last (d # cs)" by simp
    show ?thesis
    proof (cases "is_linebreak c")
      case True
      from "3.IH"(2) [OF False True p]
      have ih: "splitlines_from keepends [] (d # cs) \<noteq> []"
        "last (splitlines_from keepends [] (d # cs)) \<noteq> []"
        "last (last (splitlines_from keepends [] (d # cs))) = last (d # cs)" by blast+
      have "splitlines_from keepends line (c # d # cs) =
          (line @ (if keepends then [c] else [])) # splitlines_from keepends [] (d # cs)"
        by (simp only: splitlines_from.simps False True if_False if_True)
      with ih l show ?thesis by (simp only: last_ConsR) simp
    next
      case nl: False
      from "3.IH"(3) [OF False nl p]
      have ih: "splitlines_from keepends (line @ [c]) (d # cs) \<noteq> []"
        "last (splitlines_from keepends (line @ [c]) (d # cs)) \<noteq> []"
        "last (last (splitlines_from keepends (line @ [c]) (d # cs))) = last (d # cs)" by blast+
      have "splitlines_from keepends line (c # d # cs) =
          splitlines_from keepends (line @ [c]) (d # cs)"
        by (simp only: splitlines_from.simps False nl if_False)
      with ih l show ?thesis by (simp only:) simp
    qed
  qed
qed

lemma suffix_last: "suffix z y \<Longrightarrow> z \<noteq> [] \<Longrightarrow> last z = last y"
  by (auto simp: suffix_def)

lemma strip_last:
  assumes "y \<noteq> []" and "\<not> isspace (last y)"
  shows "strip y \<noteq> [] \<and> last (strip y) = last y"
proof -
  define z where "z = dropWhile isspace y"
  have "last y \<in> set y" using assms(1) by simp
  with assms(2) have z: "z \<noteq> []" unfolding z_def by (auto simp: dropWhile_eq_Nil_conv)
  have lz: "last z = last y"
    unfolding z_def using z suffix_dropWhile [of isspace y] by (simp add: suffix_last z_def)
  have "hd (rev z) = last z" using z by (simp add: hd_rev)
  with lz assms(2) z have "dropWhile isspace (rev z) = rev z"
    by (cases "rev z") auto
  then have "strip y = z" by (simp add: strip_def z_def)
  with z lz show ?thesis by simp
qed

lemma join_closed:
  "xs \<noteq> [] \<Longrightarrow> closed_text (last xs) \<Longrightarrow> closed_text (join [LF] xs)"
proof (induction "[LF]" xs rule: join.induct)
  case 1
  then show ?case by simp
next
  case (2 x)
  then show ?case by simp
next
  case (3 x y ys)
  then have "closed_text (join [LF] (y # ys))" by simp
  then show ?case by (cases "join [LF] (y # ys) = []") (auto simp: closed_text_def)
qed

lemma re_search_suffix:
  "re_search r a p s = Some (skipped, m) \<Longrightarrow> suffix (rest m) s"
proof (induction s arbitrary: a p skipped m)
  case Nil
  then obtain ms where "filter (\<lambda>m. \<not> a) (matches r \<lparr>prev = p, rest = [], groups = []\<rparr>) = m # ms"
    by (auto split: list.splits)
  then have "m \<in> set (filter (\<lambda>m. \<not> a) (matches r \<lparr>prev = p, rest = [], groups = []\<rparr>))"
    by simp
  then have "m \<in> set (matches r \<lparr>prev = p, rest = [], groups = []\<rparr>)" by simp
  from matches_suffix [OF this] show ?case by simp
next
  case (Cons c cs)
  show ?case
  proof (cases "filter (\<lambda>m. \<not> a \<or> length (rest m) < length (c # cs))
                  (matches r \<lparr>prev = p, rest = c # cs, groups = []\<rparr>)")
    case Nil
    with Cons.prems obtain sk where sk: "re_search r False (Some c) cs = Some (sk, m)"
      by (auto split: option.splits)
    from Cons.IH [OF sk] show ?thesis by (simp add: suffix_Cons)
  next
    case (Cons m1 ms)
    with Cons.prems have eq: "m = m1" by auto
    from Cons have "m1 \<in> set (filter (\<lambda>m. \<not> a \<or> length (rest m) < length (c # cs))
                  (matches r \<lparr>prev = p, rest = c # cs, groups = []\<rparr>))" by simp
    then have "m1 \<in> set (matches r \<lparr>prev = p, rest = c # cs, groups = []\<rparr>)" by simp
    from matches_suffix [OF this] eq show ?thesis by simp
  qed
qed

lemma re_split_from_last:
  "re_split_from r a p s \<noteq> [] \<and> suffix (last (re_split_from r a p s)) s"
proof (induction r a p s rule: re_split_from.induct)
  case (1 r must_advance p s)
  show ?case
  proof (cases "re_search r must_advance p s")
    case None
    then show ?thesis by (subst (1 2) re_split_from.simps) simp
  next
    case (Some x)
    obtain skipped m where x: "x = (skipped, m)" by (cases x)
    from "1.IH" [OF Some x [symmetric]]
    have ih: "re_split_from r (length skipped + length (rest m) = length s) (prev m) (rest m) \<noteq> []"
      "suffix (last (re_split_from r (length skipped + length (rest m) = length s) (prev m) (rest m))) (rest m)"
      by simp_all
    from re_search_suffix Some x have "suffix (rest m) s" by simp
    with ih(2) have "suffix (last (re_split_from r (length skipped + length (rest m) = length s) (prev m) (rest m))) s"
      using suffix_order.trans by blast
    with ih(1) Some x show ?thesis by (subst (1 2) re_split_from.simps) simp
  qed
qed

lemma closed_text_suffix: "suffix f t \<Longrightarrow> closed_text t \<Longrightarrow> closed_text f"
  by (cases "f = []") (auto simp: closed_text_def suffix_last)

lemma closed_text_no_name: "closed_text f \<Longrightarrow> f \<notin> set section_names"
  by (auto simp: closed_text_def section_names_def)

lemma header_text_closed:
  assumes "header s = b @ ''*/''"
  shows "closed_text (header_text (split_header s))"
proof -
  let ?ls = "splitlines False (header s)"
  have h: "header s \<noteq> []" "last (header s) = CHR ''/''" using assms by simp_all
  then have "\<not> is_linebreak (last (header s))" by (simp add: is_linebreak_def)
  from splitlines_from_last [OF h(1) this, of False "[]"] h(2)
  have ls: "?ls \<noteq> []" "last ?ls \<noteq> []" "last (last ?ls) = CHR ''/''"
    by (simp_all add: splitlines_def)
  have "closed_text (strip (drop 3 (last ?ls)))"
  proof (cases "drop 3 (last ?ls) = []")
    case True
    then show ?thesis by (simp add: strip_def closed_text_def)
  next
    case False
    then have "last (drop 3 (last ?ls)) = CHR ''/''" using ls(3) by simp
    moreover have "\<not> isspace CHR ''/''" by (simp add: isspace_def)
    ultimately show ?thesis using strip_last [OF False] by (simp add: closed_text_def)
  qed
  then have "closed_text (last (map (\<lambda>x. strip (drop 3 x)) ?ls))"
    using ls(1) by (simp add: last_map)
  with ls(1) have "closed_text (join [LF] (map (\<lambda>x. strip (drop 3 x)) ?ls))"
    by (intro join_closed) simp_all
  then show ?thesis by (simp add: split_header_def Let_def)
qed

lemma sections_closed:
  assumes "header s = b @ ''*/''"
  shows "sections (split_header s) \<noteq> [] \<and> last (sections (split_header s)) \<notin> set section_names"
proof -
  have s: "sections (split_header s) = re_split section_re (header_text (split_header s))"
    by (simp add: split_header_def Let_def)
  from re_split_from_last [of section_re False None "header_text (split_header s)"]
  have "sections (split_header s) \<noteq> []"
    and "suffix (last (sections (split_header s))) (header_text (split_header s))"
    unfolding s re_split_def by simp_all
  with header_text_closed [OF assms] closed_text_suffix closed_text_no_name
  show ?thesis by blast
qed

lemma keepsD: "keeps f \<Longrightarrow> fit s \<Longrightarrow> fit (snd (f s)) \<and> fst (f s) \<noteq> Inl IndexError"
  by (simp add: keeps_def)

lemma fit_split_header:
  assumes "path s \<noteq> []" and "list_all labelled (diagnostics s)" and "header s = b @ ''*/''"
  shows "fit (split_header (s\<lparr>debug := dbg\<rparr>))"
proof -
  have "header (s\<lparr>debug := dbg\<rparr>) = b @ ''*/''" using assms(3) by simp
  from sections_closed [OF this]
  have "last (sections (split_header (s\<lparr>debug := dbg\<rparr>))) \<notin> set section_names" by simp
  moreover have "path (split_header (s\<lparr>debug := dbg\<rparr>)) = path s"
    and "diagnostics (split_header (s\<lparr>debug := dbg\<rparr>)) = diagnostics s"
    by (simp_all add: split_header_def Let_def diagnostics_def)
  ultimately show ?thesis using assms(1,2) by (simp add: fit_def)
qed

lemma process_header_kept:
  assumes "path s \<noteq> []" and "list_all labelled (diagnostics s)" and "header s = b @ ''*/''"
  shows "fit (snd (process_header dbg s)) \<and> fst (process_header dbg s) \<noteq> Inl IndexError"
  unfolding process_header_def Let_def
proof (rule keepsD [where s = "split_header (s\<lparr>debug := dbg\<rparr>)"])
  show "fit (split_header (s\<lparr>debug := dbg\<rparr>))" by (rule fit_split_header [OF assms])
next
  have names: "''Public'' \<in> set section_names" "''Author'' \<in> set section_names"
    "''Argument'' \<in> set section_names" "''Return Value'' \<in> set section_names"
    "''Example'' \<in> set section_names"
    by (simp_all add: section_names_def)
  have upd: "fit (s\<lparr>public := p\<rparr>)" "fit (s\<lparr>authors := a\<rparr>)" "fit (s\<lparr>description := d\<rparr>)"
    "fit (s\<lparr>arguments := args\<rparr>)" "fit (s\<lparr>return_value := r\<rparr>)" "fit (s\<lparr>example := e\<rparr>)"
    if "fit s" for s p a d args r e
    using that by (simp_all add: fit_def diagnostics_def)
  show "keeps (and_then (get_section ''Public'') (\<lambda>public_raw.
           if public_raw = [] then feedback ''Public value undefined'' 3
           else
             and_then (process_public public_raw) (\<lambda>p.
             and_then (modify (\<lambda>s. s\<lparr>public := p\<rparr>)) (\<lambda>_ s.
               if \<not> public s \<and> \<not> debug s then return () s
               else
                 and_then (get_section ''Author'') (\<lambda>author_raw.
                 and_then (get_section ''Argument'') (\<lambda>arguments_raw.
                 and_then (get_section ''Return Value'') (\<lambda>return_value_raw.
                 and_then (get_section ''Example'') (\<lambda>example_raw.
                 and_then
                   (if author_raw \<noteq> [] then
                      and_then (process_author author_raw) (\<lambda>a.
                      and_then (modify (\<lambda>s. s\<lparr>authors := a\<rparr>)) (\<lambda>_.
                      and_then (process_description author_raw) (\<lambda>d.
                      modify (\<lambda>s. s\<lparr>description := d\<rparr>))))
                    else return ()) (\<lambda>_.
                 and_then
                   (if arguments_raw \<noteq> [] then
                      and_then (process_arguments arguments_raw) (\<lambda>a.
                      modify (\<lambda>s. s\<lparr>arguments := a\<rparr>))
                    else return ()) (\<lambda>_.
                 and_then
                   (if return_value_raw \<noteq> [] then
                      and_then (process_return_value return_value_raw) (\<lambda>r.
                      modify (\<lambda>s. s\<lparr>return_value := r\<rparr>))
                    else return ()) (\<lambda>_.
                 if example_raw \<noteq> [] then modify (\<lambda>s. s\<lparr>example := strip example_raw\<rparr>)
                 else return ()))))))) s))))"
    by (intro keeps_and_then keeps_if keeps_when keeps_modify keeps_return keeps_feedback
          keeps_get_section keeps_process_public keeps_process_author keeps_process_description
          keeps_process_arguments keeps_process_return_value names upd)
       simp_all
qed

lemma document_function_error:
  "fst (document_function s) = Inl e \<Longrightarrow> e = IndexError"
  by (auto simp: document_function_def Let_def split: list.splits)

text \<open>
  C10. In the crawl of any file with a path, for every text of the file, every
  directory and both modes: each diagnostic that has been printed starts with exactly
  one of the labels \<^verbatim>\<open>Info\<close>, \<^verbatim>\<open>Warning\<close>, \<^verbatim>\<open>Error\<close>, \<^verbatim>\<open>Aborted\<close>, and no lookup of a label
  is out of bounds: the crawl of a file ends with IndexError only when \<open>process_header\<close>
  has returned and \<open>document_function\<close> has raised it (it formats a return value that was
  never set). Every call of \<open>feedback\<close> on the way has a level from 0 to 3.
\<close>

theorem feedback_levels_in_bounds:
  assumes "file_path \<noteq> []"
  shows "list_all labelled (diagnostics (snd (fst (crawl_file dir dbg file_path code)))) \<and>
         (fst (fst (crawl_file dir dbg file_path code)) = Inl IndexError \<longrightarrow>
            (\<exists>s. process_header dbg (snd (import_header file_path code (FunctionFile dir))) = (Inr (), s) \<and>
                 fst (document_function s) = Inl IndexError))"
proof (cases "re_match header_re code")
  case None
  let ?s = "write_out (Text ''Aborted: Missing header'') 2
              (announced True ((FunctionFile dir)\<lparr>path := file_path\<rparr>))"
  have "header ?s = []"
    by (simp add: write_out_def announced_def FunctionFile_def)
  then have "crawl_file dir dbg file_path code = ((Inr (), ?s), None)"
    by (simp add: crawl_file_def import_header_missing [OF None assms] has_header_def)
  moreover have "diagnostics ((FunctionFile dir)\<lparr>path := file_path\<rparr>) = []"
    by (simp add: diagnostics_def FunctionFile_def)
  then have "diagnostics ?s = [''Aborted: Missing header'']"
    by (simp add: diagnostics_write_out diagnostics_announced)
  moreover have "labelled ''Aborted: Missing header''"
    using labelled_labels(4) [of "''Missing header''"] by simp
  ultimately show ?thesis by simp
next
  case (Some m)
  let ?s1 = "with_header dir file_path (group0 code m)"
  have imp: "import_header file_path code (FunctionFile dir) = (Inr (), ?s1)"
    by (rule import_header_found [OF Some assms])
  from header_span_of_match(1) [OF Some] obtain ws b where
    "group0 code m = ws @ ''/*'' @ b @ ''*/''"
    unfolding header_span_def by blast
  then have h: "header ?s1 = (ws @ ''/*'' @ b) @ ''*/''"
    by (simp add: with_header_def)
  then have hh: "has_header ?s1" by (simp add: has_header_def)
  have p1: "path ?s1 \<noteq> []" and d1: "list_all labelled (diagnostics ?s1)"
    using assms by (simp_all add: with_header_fields)
  obtain r s2 where ph: "process_header dbg ?s1 = (r, s2)" by (cases "process_header dbg ?s1")
  with process_header_kept [OF p1 d1 h, of dbg]
  have fit2: "fit s2" and r: "r \<noteq> Inl IndexError" by simp_all
  from fit2 have l2: "list_all labelled (diagnostics s2)" by (simp add: fit_def)
  show ?thesis
  proof (cases r)
    case (Inl e)
    with ph imp hh have "crawl_file dir dbg file_path code = ((Inl e, s2), None)"
      by (simp add: crawl_file_def)
    with l2 r Inl show ?thesis by simp
  next
    case (Inr u)
    show ?thesis
    proof (cases "is_public s2 \<and> \<not> dbg")
      case False
      with Inr ph imp hh have "crawl_file dir dbg file_path code = ((Inr (), s2), None)"
        by (auto simp: crawl_file_def)
      with l2 show ?thesis by simp
    next
      case True
      obtain rd appended where doc: "document_function s2 = (rd, appended)"
        by (cases "document_function s2")
      show ?thesis
      proof (cases rd)
        case rdl: (Inl e)
        with doc document_function_error [of s2 e] have e: "e = IndexError" by simp
        from rdl doc True Inr ph imp hh
        have "crawl_file dir dbg file_path code = ((Inl e, s2), Some appended)"
          by (simp add: crawl_file_def)
        moreover have "process_header dbg (snd (import_header file_path code (FunctionFile dir))) = (Inr (), s2)"
          using imp ph Inr by simp
        moreover have "fst (document_function s2) = Inl IndexError"
          using doc rdl e by simp
        ultimately show ?thesis using l2 by simp
      next
        case rdr: (Inr v)
        from rdr doc True Inr ph imp hh
        have c: "crawl_file dir dbg file_path code =
                 (feedback ''Publicly documented'' 0 s2, Some appended)"
          by (simp add: crawl_file_def)
        from keepsD [OF keeps_feedback fit2, of 0 "''Publicly documented''"]
        have "fit (snd (feedback ''Publicly documented'' 0 s2))"
          and "fst (feedback ''Publicly documented'' 0 s2) \<noteq> Inl IndexError"
          by simp_all
        with c show ?thesis by (simp add: fit_def)
      qed
    qed
  qed
qed

theorem feedback_levels_in_bounds_witness:
  "''fnc_x.sqf'' \<noteq> [] \<and>
   diagnostics (snd (fst (crawl_file ''.'' False ''fnc_x.sqf'' ''/*\<newline> * Public: Yes\<newline> */''))) =
     [''Error: Missing \"Author\" header section'',
      ''Error: Missing \"Argument\" header section'',
      ''Error: Missing \"Return Value\" header section'',
      ''Error: Missing \"Example\" header section''] \<and>
   list_all labelled
     (diagnostics (snd (fst (crawl_file ''.'' False ''fnc_x.sqf'' ''/*\<newline> * Public: Yes\<newline> */'')))) \<and>
   fst (fst (crawl_file ''.'' False ''fnc_x.sqf'' ''/*\<newline> * Public: Yes\<newline> */'')) = Inl IndexError \<and>
   (\<exists>s. process_header False
          (snd (import_header ''fnc_x.sqf'' ''/*\<newline> * Public: Yes\<newline> */'' (FunctionFile ''.''))) =
            (Inr (), s) \<and>
        fst (document_function s) = Inl IndexError)"
proof -
  have ne: "''fnc_x.sqf'' \<noteq> []" by simp
  note w = feedback_levels_in_bounds [OF ne, of "''.''" False "''/*\<newline> * Public: Yes\<newline> */''"]
  have d: "diagnostics (snd (fst (crawl_file ''.'' False ''fnc_x.sqf'' ''/*\<newline> * Public: Yes\<newline> */''))) =
     [''Error: Missing \"Author\" header section'',
      ''Error: Missing \"Argument\" header section'',
      ''Error: Missing \"Return Value\" header section'',
      ''Error: Missing \"Example\" header section'']"
    by code_simp
  have r: "fst (fst (crawl_file ''.'' False ''fnc_x.sqf'' ''/*\<newline> * Public: Yes\<newline> */'')) = Inl IndexError"
    by code_simp
  from w have a: "list_all labelled
     (diagnostics (snd (fst (crawl_file ''.'' False ''fnc_x.sqf'' ''/*\<newline> * Public: Yes\<newline> */''))))"
    by blast
  from w r have b: "\<exists>s. process_header False
          (snd (import_header ''fnc_x.sqf'' ''/*\<newline> * Public: Yes\<newline> */'' (FunctionFile ''.''))) =
            (Inr (), s) \<and>
        fst (document_function s) = Inl IndexError"
    by blast
  from ne d a r b show ?thesis by blast
qed

end
